theory Spec2Isabelle
  imports Main "HOL-Library.Word" "HOL-Library.List_Lexorder"
begin

section \<open>JavaScript values\<close>

text \<open>
  A JavaScript string is a sequence of 16-bit code units. Source literals are ASCII and are
  written \<open>js ''...''\<close>; the Cyrillic literals of the source are given by their code units.
  Lists of code units are ordered lexicographically (\<open>List_Lexorder\<close>), which is the order
  of \<open>Array.prototype.sort()\<close> without a comparator and of \<open>startsWith\<close>.
\<close>

type_synonym jsstring = "16 word list"

definition js :: "string \<Rightarrow> jsstring" where
  "js s = map of_char s"

text \<open>
  Numbers: \<open>Fin m e\<close> is the finite value \<open>m * 10 ^ e\<close>; negative zero is identified with
  zero (no operation of the program tells them apart). Rounding to IEEE-754 doubles is not
  modelled: a finite number keeps the exact decimal value it was written with.
\<close>

datatype jsnum = NaN | PosInf | NegInf | Fin int int

text \<open>
  \<open>JFunction\<close> stands for a built-in function object; the only one the program can read
  as data is \<open>Array.prototype.entries\<close> (through \<open>data.entries\<close> on an array).
  An object is the list of its own properties in insertion order.
\<close>

datatype jsval =
    JUndefined
  | JNull
  | JBool bool
  | JNum jsnum
  | JStr jsstring
  | JArr "jsval list"
  | JObj "(jsstring \<times> jsval) list"
  | JFunction jsstring

datatype exn = SecurityError | QuotaExceededError | SyntaxError | TypeError

function norm_dec :: "int \<Rightarrow> int \<Rightarrow> int \<times> int" where
  "norm_dec m e =
     (if m = 0 then (0, 0)
      else if m mod 10 = 0 then norm_dec (m div 10) (e + 1)
      else (m, e))"
  by pat_completeness auto
termination
  by (relation "measure (\<lambda>(m, e). nat \<bar>m\<bar>)") auto






section \<open>Number and string conversions\<close>

definition digit_char :: "nat \<Rightarrow> 16 word" where
  "digit_char d = js ''0123456789abcdefghijklmnopqrstuvwxyz'' ! d"

fun digits_in :: "nat \<Rightarrow> nat \<Rightarrow> jsstring" where
  "digits_in b n =
     (if b < 2 \<or> n < b then [digit_char n]
      else digits_in b (n div b) @ [digit_char (n mod b)])"

declare digits_in.simps [simp del]


text \<open>
  \<open>Number::toString\<close> in radix 10 (ECMA-262): with \<open>s\<close> the \<open>k\<close> significant digits and
  \<open>n = k + e\<close> the position of the decimal point.
\<close>

definition Number_toString_pos :: "nat \<Rightarrow> int \<Rightarrow> jsstring" where
  "Number_toString_pos s e =
     (let ds = digits_in 10 s; k = int (length ds); n = k + e in
      if k \<le> n \<and> n \<le> 21 then ds @ replicate (nat (n - k)) (digit_char 0)
      else if 0 < n \<and> n \<le> 21 then take (nat n) ds @ js ''.'' @ drop (nat n) ds
      else if - 6 < n \<and> n \<le> 0 then js ''0.'' @ replicate (nat (- n)) (digit_char 0) @ ds
      else
        (let x = n - 1;
             ex = (if x < 0 then js ''-'' else js ''+'') @ digits_in 10 (nat \<bar>x\<bar>)
         in if k = 1 then ds @ js ''e'' @ ex
            else take 1 ds @ js ''.'' @ drop 1 ds @ js ''e'' @ ex))"

fun Number_toString :: "jsnum \<Rightarrow> jsstring" where
  "Number_toString NaN = js ''NaN''"
| "Number_toString PosInf = js ''Infinity''"
| "Number_toString NegInf = js ''-Infinity''"
| "Number_toString (Fin m e) =
     (case norm_dec m e of (m', e') \<Rightarrow>
        if m' = 0 then js ''0''
        else if m' < 0 then js ''-'' @ Number_toString_pos (nat (- m')) e'
        else Number_toString_pos (nat m') e')"

section \<open>JSON.stringify\<close>

definition is_high_surrogate :: "16 word \<Rightarrow> bool" where
  "is_high_surrogate c = (0xD800 \<le> c \<and> c \<le> 0xDBFF)"

definition is_low_surrogate :: "16 word \<Rightarrow> bool" where
  "is_low_surrogate c = (0xDC00 \<le> c \<and> c \<le> 0xDFFF)"

definition hex4 :: "16 word \<Rightarrow> jsstring" where
  "hex4 c =
     (let n = unat c in
      [digit_char (n div 4096), digit_char (n div 256 mod 16),
       digit_char (n div 16 mod 16), digit_char (n mod 16)])"

definition unicode_escape :: "16 word \<Rightarrow> jsstring" where
  "unicode_escape c = [0x5C, 0x75] @ hex4 c"

text \<open>
  One code unit that is not part of a surrogate pair, inside a JSON string literal. The
  backslash is the code unit \<open>0x5C\<close> and the double quote \<open>0x22\<close>; the two-unit
  escapes are backslash b, t, n, f, r, the escaped quote and the escaped backslash.
\<close>

definition quote_unit :: "16 word \<Rightarrow> jsstring" where
  "quote_unit c =
     (if c = 0x08 then [0x5C, 0x62]
      else if c = 0x09 then [0x5C, 0x74]
      else if c = 0x0A then [0x5C, 0x6E]
      else if c = 0x0C then [0x5C, 0x66]
      else if c = 0x0D then [0x5C, 0x72]
      else if c = 0x22 then [0x5C, 0x22]
      else if c = 0x5C then [0x5C, 0x5C]
      else if c < 0x20 \<or> is_high_surrogate c \<or> is_low_surrogate c then unicode_escape c
      else [c])"

fun quote_units :: "jsstring \<Rightarrow> jsstring" where
  "quote_units [] = []"
| "quote_units [c] = quote_unit c"
| "quote_units (c # d # cs) =
     (if is_high_surrogate c \<and> is_low_surrogate d then c # d # quote_units cs
      else quote_unit c @ quote_units (d # cs))"

definition QuoteJSONString :: "jsstring \<Rightarrow> jsstring" where
  "QuoteJSONString s = [0x22] @ quote_units s @ [0x22]"

fun join :: "jsstring \<Rightarrow> jsstring list \<Rightarrow> jsstring" where
  "join sep [] = []"
| "join sep [x] = x"
| "join sep (x # y # ys) = x @ sep @ join sep (y # ys)"

text \<open>
  \<open>SerializeJSONProperty\<close>: \<open>None\<close> is the result \<open>undefined\<close> (for \<open>undefined\<close> and
  functions), which an array prints as \<open>null\<close> and an object leaves out together with its
  key. Non-finite numbers print as \<open>null\<close>.
\<close>

fun serialize :: "jsval \<Rightarrow> jsstring option" where
  "serialize JUndefined = None"
| "serialize (JFunction f) = None"
| "serialize JNull = Some (js ''null'')"
| "serialize (JBool b) = Some (if b then js ''true'' else js ''false'')"
| "serialize (JNum n) =
     Some (case n of Fin m e \<Rightarrow> Number_toString (Fin m e) | _ \<Rightarrow> js ''null'')"
| "serialize (JStr s) = Some (QuoteJSONString s)"
| "serialize (JArr xs) =
     Some (js ''['' @
           join (js '','')
             (map (\<lambda>x. case serialize x of None \<Rightarrow> js ''null'' | Some t \<Rightarrow> t) xs) @
           js '']'')"
| "serialize (JObj kvs) =
     Some (js ''{'' @
           join (js '','')
             (concat (map (\<lambda>(k, v). case serialize v of None \<Rightarrow> []
                                    | Some t \<Rightarrow> [QuoteJSONString k @ js '':'' @ t]) kvs)) @
           js ''}'')"

text \<open>\<open>JSON.stringify(v)\<close> followed by the conversion to string that \<open>setItem\<close> applies.\<close>

definition JSON_stringify :: "jsval \<Rightarrow> jsstring" where
  "JSON_stringify v = (case serialize v of None \<Rightarrow> js ''undefined'' | Some t \<Rightarrow> t)"

section \<open>JSON.parse\<close>

definition is_ws :: "16 word \<Rightarrow> bool" where
  "is_ws c = (c = 0x20 \<or> c = 0x09 \<or> c = 0x0A \<or> c = 0x0D)"

definition skip_ws :: "jsstring \<Rightarrow> jsstring" where
  "skip_ws s = dropWhile is_ws s"

definition is_digit :: "16 word \<Rightarrow> bool" where
  "is_digit c = (0x30 \<le> c \<and> c \<le> 0x39)"

definition digit_val :: "16 word \<Rightarrow> nat" where
  "digit_val c = unat c - 48"

definition digits_val :: "jsstring \<Rightarrow> nat" where
  "digits_val ds = foldl (\<lambda>a c. 10 * a + digit_val c) 0 ds"

definition hex_val :: "16 word \<Rightarrow> nat option" where
  "hex_val c =
     (if is_digit c then Some (unat c - 48)
      else if 0x61 \<le> c \<and> c \<le> 0x66 then Some (unat c - 87)
      else if 0x41 \<le> c \<and> c \<le> 0x46 then Some (unat c - 55)
      else None)"

definition parse_hex4 :: "16 word \<Rightarrow> 16 word \<Rightarrow> 16 word \<Rightarrow> 16 word \<Rightarrow> 16 word option" where
  "parse_hex4 a b c d =
     (case (hex_val a, hex_val b, hex_val c, hex_val d) of
        (Some a', Some b', Some c', Some d') \<Rightarrow>
          Some (of_nat (((a' * 16 + b') * 16 + c') * 16 + d'))
      | _ \<Rightarrow> None)"

text \<open>The character after a backslash: quote, backslash, slash, b, f, n, r, t.\<close>

definition unescape :: "16 word \<Rightarrow> 16 word option" where
  "unescape e =
     (if e = 0x22 \<or> e = 0x5C \<or> e = 0x2F then Some e
      else if e = 0x62 then Some 0x08
      else if e = 0x66 then Some 0x0C
      else if e = 0x6E then Some 0x0A
      else if e = 0x72 then Some 0x0D
      else if e = 0x74 then Some 0x09
      else None)"

text \<open>
  The characters of a string literal after its opening quote, up to the closing quote:
  the decoded string and the rest of the input.
\<close>

fun parse_chars :: "jsstring \<Rightarrow> (jsstring \<times> jsstring) option" where
  "parse_chars [] = None"
| "parse_chars (c # cs) =
     (if c = 0x22 then Some ([], cs)
      else if c = 0x5C then
        (case cs of
           [] \<Rightarrow> None
         | e # es \<Rightarrow>
             if e = 0x75 then
               (case es of
                  h1 # h2 # h3 # h4 # r \<Rightarrow>
                    (case parse_hex4 h1 h2 h3 h4 of
                       None \<Rightarrow> None
                     | Some u \<Rightarrow>
                         (case parse_chars r of
                            None \<Rightarrow> None
                          | Some (t, r') \<Rightarrow> Some (u # t, r')))
                | _ \<Rightarrow> None)
             else
               (case unescape e of
                  None \<Rightarrow> None
                | Some u \<Rightarrow>
                    (case parse_chars es of
                       None \<Rightarrow> None
                     | Some (t, r') \<Rightarrow> Some (u # t, r'))))
      else if c < 0x20 then None
      else (case parse_chars cs of None \<Rightarrow> None | Some (t, r') \<Rightarrow> Some (c # t, r')))"

text \<open>The number grammar: \<open>-? (0 | [1-9][0-9]*) (. [0-9]+)? ([eE] [+-]? [0-9]+)?\<close>.\<close>

definition parse_int_part :: "jsstring \<Rightarrow> (jsstring \<times> jsstring) option" where
  "parse_int_part s =
     (case s of
        [] \<Rightarrow> None
      | c # cs \<Rightarrow>
          if c = 0x30 then Some ([c], cs)
          else if is_digit c then Some (c # takeWhile is_digit cs, dropWhile is_digit cs)
          else None)"

definition parse_frac :: "jsstring \<Rightarrow> (jsstring \<times> jsstring) option" where
  "parse_frac s =
     (case s of
        [] \<Rightarrow> Some ([], [])
      | c # cs \<Rightarrow>
          if c = 0x2E then
            (if takeWhile is_digit cs = [] then None
             else Some (takeWhile is_digit cs, dropWhile is_digit cs))
          else Some ([], s))"

definition parse_sign :: "jsstring \<Rightarrow> bool \<times> jsstring" where
  "parse_sign s =
     (case s of
        [] \<Rightarrow> (False, [])
      | c # cs \<Rightarrow> if c = 0x2D then (True, cs) else if c = 0x2B then (False, cs) else (False, s))"

definition parse_exp :: "jsstring \<Rightarrow> (int \<times> jsstring) option" where
  "parse_exp s =
     (case s of
        [] \<Rightarrow> Some (0, [])
      | c # cs \<Rightarrow>
          if c = 0x65 \<or> c = 0x45 then
            (case parse_sign cs of (neg, r) \<Rightarrow>
               if takeWhile is_digit r = [] then None
               else Some ((if neg then - 1 else 1) * int (digits_val (takeWhile is_digit r)),
                          dropWhile is_digit r))
          else Some (0, s))"

definition parse_number :: "jsstring \<Rightarrow> (jsnum \<times> jsstring) option" where
  "parse_number s =
     (case (case s of [] \<Rightarrow> (False, []) | c # cs \<Rightarrow> if c = 0x2D then (True, cs) else (False, s)) of
        (neg, r0) \<Rightarrow>
          (case parse_int_part r0 of
             None \<Rightarrow> None
           | Some (ip, r1) \<Rightarrow>
               (case parse_frac r1 of
                  None \<Rightarrow> None
                | Some (fp, r2) \<Rightarrow>
                    (case parse_exp r2 of
                       None \<Rightarrow> None
                     | Some (ex, r3) \<Rightarrow>
                         (case norm_dec ((if neg then - 1 else 1) * int (digits_val (ip @ fp)))
                                 (ex - int (length fp)) of
                            (m, e) \<Rightarrow> Some (Fin m e, r3))))))"

text \<open>
  Defining a property that an object already has replaces its value in place; a new one
  goes last. (The reordering of integer-like keys is not modelled.)
\<close>

fun put_prop :: "'k \<Rightarrow> 'v \<Rightarrow> ('k \<times> 'v) list \<Rightarrow> ('k \<times> 'v) list" where
  "put_prop k v [] = [(k, v)]"
| "put_prop k v ((k', v') # ps) =
     (if k' = k then (k, v) # ps else (k', v') # put_prop k v ps)"

definition object_of :: "(jsstring \<times> jsval) list \<Rightarrow> (jsstring \<times> jsval) list" where
  "object_of kvs = foldl (\<lambda>ob (k, v). put_prop k v ob) [] kvs"

text \<open>
  Recursive descent. Each function is called on input that starts with a significant
  character. The tests \<open>length _ < length s\<close> before a recursive call always succeed
  (a parse consumes at least one character); they make the recursion visibly terminating.
\<close>

function parse_value :: "jsstring \<Rightarrow> (jsval \<times> jsstring) option"
  and parse_elements :: "jsstring \<Rightarrow> (jsval list \<times> jsstring) option"
  and parse_members :: "jsstring \<Rightarrow> ((jsstring \<times> jsval) list \<times> jsstring) option"
where
  "parse_value s =
     (case s of
        [] \<Rightarrow> None
      | c # cs \<Rightarrow>
          if c = 0x7B then
            (case skip_ws cs of
               [] \<Rightarrow> None
             | d # ds \<Rightarrow>
                 if d = 0x7D then Some (JObj [], ds)
                 else (case parse_members (d # ds) of
                         None \<Rightarrow> None
                       | Some (kvs, r) \<Rightarrow> Some (JObj (object_of kvs), r)))
          else if c = 0x5B then
            (case skip_ws cs of
               [] \<Rightarrow> None
             | d # ds \<Rightarrow>
                 if d = 0x5D then Some (JArr [], ds)
                 else (case parse_elements (d # ds) of
                         None \<Rightarrow> None
                       | Some (vs, r) \<Rightarrow> Some (JArr vs, r)))
          else if c = 0x22 then
            (case parse_chars cs of None \<Rightarrow> None | Some (t, r) \<Rightarrow> Some (JStr t, r))
          else if take 4 s = js ''true'' then Some (JBool True, drop 4 s)
          else if take 5 s = js ''false'' then Some (JBool False, drop 5 s)
          else if take 4 s = js ''null'' then Some (JNull, drop 4 s)
          else if c = 0x2D \<or> is_digit c then
            (case parse_number s of None \<Rightarrow> None | Some (n, r) \<Rightarrow> Some (JNum n, r))
          else None)"
| "parse_elements s =
     (case parse_value s of
        None \<Rightarrow> None
      | Some (v, r) \<Rightarrow>
          (case skip_ws r of
             [] \<Rightarrow> None
           | c # cs \<Rightarrow>
               if c = 0x5D then Some ([v], cs)
               else if c = 0x2C \<and> length cs < length s then
                 (case parse_elements (skip_ws cs) of
                    None \<Rightarrow> None
                  | Some (vs, r') \<Rightarrow> Some (v # vs, r'))
               else None))"
| "parse_members s =
     (case s of
        [] \<Rightarrow> None
      | q # qs \<Rightarrow>
          if q = 0x22 then
            (case parse_chars qs of
               None \<Rightarrow> None
             | Some (k, r) \<Rightarrow>
                 (case skip_ws r of
                    [] \<Rightarrow> None
                  | d # ds \<Rightarrow>
                      if d = 0x3A \<and> length ds < length s then
                        (case parse_value (skip_ws ds) of
                           None \<Rightarrow> None
                         | Some (v, r') \<Rightarrow>
                             (case skip_ws r' of
                                [] \<Rightarrow> None
                              | e # es \<Rightarrow>
                                  if e = 0x7D then Some ([(k, v)], es)
                                  else if e = 0x2C \<and> length es < length s then
                                    (case parse_members (skip_ws es) of
                                       None \<Rightarrow> None
                                     | Some (kvs, r'') \<Rightarrow> Some ((k, v) # kvs, r''))
                                  else None))
                      else None))
          else None)"
  by pat_completeness auto

termination
proof (relation "measure (\<lambda>x. case x of
           Inl s \<Rightarrow> 2 * length s
         | Inr (Inl s) \<Rightarrow> 2 * length s + 1
         | Inr (Inr s) \<Rightarrow> 2 * length s + 1)", goal_cases)
  case 1
  show ?case by simp
next
  case (2 s c cs d ds)
  then show ?case using length_dropWhile_le [of is_ws cs] by (simp add: skip_ws_def)
next
  case (3 s c cs d ds)
  then show ?case using length_dropWhile_le [of is_ws cs] by (simp add: skip_ws_def)
next
  case (4 s)
  show ?case by simp
next
  case (5 s x v r c cs)
  then show ?case using length_dropWhile_le [of is_ws cs] by (simp add: skip_ws_def)
next
  case (6 s q qs x k r d ds)
  then show ?case using length_dropWhile_le [of is_ws ds] by (simp add: skip_ws_def)
next
  case (7 s q qs x k r d ds y v r' e es)
  then show ?case using length_dropWhile_le [of is_ws es] by (simp add: skip_ws_def)
qed

declare parse_value.simps [simp del] parse_elements.simps [simp del] parse_members.simps [simp del]

definition JSON_parse :: "jsstring \<Rightarrow> exn + jsval" where
  "JSON_parse s =
     (case parse_value (skip_ws s) of
        None \<Rightarrow> Inl SyntaxError
      | Some (v, r) \<Rightarrow> if skip_ws r = [] then Inr v else Inl SyntaxError)"

text \<open>
  What a value reads as after \<open>JSON.stringify\<close> and \<open>JSON.parse\<close>: \<open>undefined\<close>,
  functions and non-finite numbers come back as \<open>null\<close> (inside an array; an object
  drops such properties), numbers in normal form.
\<close>

fun json_norm :: "jsval \<Rightarrow> jsval" where
  "json_norm JUndefined = JNull"
| "json_norm (JFunction f) = JNull"
| "json_norm JNull = JNull"
| "json_norm (JBool b) = JBool b"
| "json_norm (JNum n) =
     (case n of Fin m e \<Rightarrow> (case norm_dec m e of (m', e') \<Rightarrow> JNum (Fin m' e')) | _ \<Rightarrow> JNull)"
| "json_norm (JStr t) = JStr t"
| "json_norm (JArr xs) = JArr (map json_norm xs)"
| "json_norm (JObj kvs) =
     JObj (object_of
             (map (\<lambda>(k, v). (k, json_norm v))
                (filter (\<lambda>(k, v). serialize v \<noteq> None) kvs)))"

text \<open>What may follow a value inside JSON text without white space: nothing, or one of
  \<open>, ] }\<close>.\<close>

definition delim :: "jsstring \<Rightarrow> bool" where
  "delim rest = (case rest of [] \<Rightarrow> True | c # cs \<Rightarrow> c = 0x2C \<or> c = 0x5D \<or> c = 0x7D)"

text \<open>Code units with which the text of a serialized value can begin.\<close>

definition starter :: "16 word \<Rightarrow> bool" where
  "starter c = (c = 0x22 \<or> c = 0x5B \<or> c = 0x7B \<or> c = 0x2D \<or> is_digit c \<or>
                c = 0x6E \<or> c = 0x74 \<or> c = 0x66)"

text \<open>The text \<open>JSON.stringify\<close> writes for an array element and for an object member.\<close>

definition elem_text :: "jsval \<Rightarrow> jsstring" where
  "elem_text x = (case serialize x of None \<Rightarrow> js ''null'' | Some t \<Rightarrow> t)"

definition member_text :: "jsstring \<times> jsval \<Rightarrow> jsstring" where
  "member_text kv = QuoteJSONString (fst kv) @ 0x3A # elem_text (snd kv)"

section \<open>The browser environment\<close>

text \<open>
  \<open>localStorage\<close>. A page that may not use storage (site data blocked, sandboxed frame)
  gets a \<open>SecurityError\<close> from every evaluation of the expression \<open>localStorage\<close>:
  that is \<open>Denied\<close>. Otherwise the storage holds key/value pairs under a quota, counted
  in code units of keys plus values, and \<open>setItem\<close> throws \<open>QuotaExceededError\<close> when
  the new contents would exceed it.
\<close>

record store =
  items :: "(jsstring \<times> jsstring) list"
  quota :: nat

datatype storage = Denied | Granted store

definition usage :: "(jsstring \<times> jsstring) list \<Rightarrow> nat" where
  "usage kvs = sum_list (map (\<lambda>(k, v). length k + length v) kvs)"

text \<open>
  The callbacks the program passes to \<open>setTimeout\<close>, and its \<open>console.error\<close> call
  sites (in \<open>saveToLocalStorage\<close>, \<open>loadData\<close> and \<open>attemptSave\<close>).
\<close>

datatype callback = DeferredSave | RetrySave | HideMessage

datatype console_entry = SaveError exn | LoadError exn | RetriesExhausted exn

text \<open>
  The fields of the \<open>WorkTimesheet\<close> instance, followed by the part of the browser the
  program acts on: \<open>timers\<close> are the pending timeouts (handle, delay in ms, callback),
  \<open>scheduled\<close> records every \<open>setTimeout\<close> call in order, \<open>messages\<close> the
  notifications shown by \<open>showMessage\<close> (text, type). \<open>now_iso\<close> is what
  \<open>new Date().toISOString()\<close> returns; the \<open>n\<close>-th call of \<open>generateId\<close> reads
  \<open>Date_now n\<close> from \<open>Date.now()\<close> and \<open>Math_random36 n\<close> from
  \<open>Math.random().toString(36)\<close>. Rendering into the DOM (calendar, statistics) is
  outside the model.
\<close>

record state =
  projects :: jsval
  entries :: jsval
  isOnline :: bool
  saveTimeout :: "nat option"
  retryCount :: nat
  maxRetries :: nat
  localStorage :: storage
  timers :: "(nat \<times> nat \<times> callback) list"
  scheduled :: "(nat \<times> callback) list"
  next_timer :: nat
  console_errors :: "console_entry list"
  messages :: "(jsstring \<times> jsstring) list"
  lastSavedShown :: nat
  now_iso :: jsstring
  Date_now :: "nat \<Rightarrow> int"
  Math_random36 :: "nat \<Rightarrow> jsstring"
  draws :: nat

text \<open>A completed call either returns or throws; both leave a state behind.\<close>

type_synonym completion = "(exn \<times> state) + state"


definition ls_setItem :: "jsstring \<Rightarrow> jsstring \<Rightarrow> state \<Rightarrow> completion" where
  "ls_setItem k v s =
     (case localStorage s of
        Denied \<Rightarrow> Inl (SecurityError, s)
      | Granted st \<Rightarrow>
          if quota st < usage (put_prop k v (items st)) then Inl (QuotaExceededError, s)
          else Inr (s\<lparr>localStorage := Granted (st\<lparr>items := put_prop k v (items st)\<rparr>)\<rparr>))"

definition ls_removeItem :: "jsstring \<Rightarrow> state \<Rightarrow> completion" where
  "ls_removeItem k s =
     (case localStorage s of
        Denied \<Rightarrow> Inl (SecurityError, s)
      | Granted st \<Rightarrow>
          Inr (s\<lparr>localStorage := Granted (st\<lparr>items := filter (\<lambda>kv. fst kv \<noteq> k) (items st)\<rparr>)\<rparr>))"

text \<open>\<open>Object.keys(localStorage)\<close>\<close>

definition ls_keys :: "state \<Rightarrow> exn + jsstring list" where
  "ls_keys s =
     (case localStorage s of
        Denied \<Rightarrow> Inl SecurityError
      | Granted st \<Rightarrow> Inr (map fst (items st)))"


definition setTimeout :: "callback \<Rightarrow> nat \<Rightarrow> state \<Rightarrow> nat \<times> state" where
  "setTimeout cb ms s =
     (next_timer s,
      s\<lparr>timers := timers s @ [(next_timer s, ms, cb)],
        scheduled := scheduled s @ [(ms, cb)],
        next_timer := Suc (next_timer s)\<rparr>)"

definition clearTimeout :: "nat option \<Rightarrow> state \<Rightarrow> state" where
  "clearTimeout h s = s\<lparr>timers := filter (\<lambda>t. Some (fst t) \<noteq> h) (timers s)\<rparr>"

definition console_error :: "console_entry \<Rightarrow> state \<Rightarrow> state" where
  "console_error e s = s\<lparr>console_errors := console_errors s @ [e]\<rparr>"

section \<open>The persistence manager (class WorkTimesheet)\<close>

definition key_data :: jsstring where
  "key_data = js ''workTimesheet_data''"

definition key_backup :: jsstring where
  "key_backup = js ''workTimesheet_backup''"

definition key_prefix :: jsstring where
  "key_prefix = js ''workTimesheet_''"

definition startsWith :: "jsstring \<Rightarrow> jsstring \<Rightarrow> bool" where
  "startsWith k p = (take (length p) k = p)"

text \<open>The text of the error notification, "Oshibka sokhraneniya dannykh" in Cyrillic.\<close>

definition msg_save_error :: jsstring where
  "msg_save_error =
     [0x41E, 0x448, 0x438, 0x431, 0x43A, 0x430, 0x20, 0x441, 0x43E, 0x445, 0x440, 0x430,
      0x43D, 0x435, 0x43D, 0x438, 0x44F, 0x20, 0x434, 0x430, 0x43D, 0x43D, 0x44B, 0x445]"

text \<open>
  \<open>showMessage(text, type)\<close>: the notification is shown and its removal is scheduled
  after 3000 ms.
\<close>

definition showMessage :: "jsstring \<Rightarrow> jsstring \<Rightarrow> state \<Rightarrow> state" where
  "showMessage text type s =
     snd (setTimeout HideMessage 3000 (s\<lparr>messages := messages s @ [(text, type)]\<rparr>))"

text \<open>\<open>keys.sort().slice(0, 5).forEach(key => localStorage.removeItem(key))\<close>\<close>

fun forEach_removeItem :: "jsstring list \<Rightarrow> state \<Rightarrow> completion" where
  "forEach_removeItem [] s = Inr s"
| "forEach_removeItem (k # ks) s =
     (case ls_removeItem k s of
        Inl x \<Rightarrow> Inl x
      | Inr s' \<Rightarrow> forEach_removeItem ks s')"

definition cleanupStorage :: "state \<Rightarrow> completion" where
  "cleanupStorage s =
     (case ls_keys s of
        Inl e \<Rightarrow> Inl (e, s)
      | Inr all_keys \<Rightarrow>
          (let keys = filter (\<lambda>key. startsWith key key_prefix) all_keys in
           if length keys > 10 then forEach_removeItem (take 5 (sort keys)) s
           else Inr s))"

definition saveToLocalStorage :: "jsval \<Rightarrow> state \<Rightarrow> completion" where
  "saveToLocalStorage data s =
     (case ls_setItem key_data (JSON_stringify data) s of
        Inl (e, s1) \<Rightarrow> cleanupStorage (console_error (SaveError e) s1)
      | Inr s1 \<Rightarrow>
          (case ls_setItem key_backup (JSON_stringify data) s1 of
             Inl (e, s2) \<Rightarrow> cleanupStorage (console_error (SaveError e) s2)
           | Inr s2 \<Rightarrow> Inr s2))"

text \<open>The object literal \<open>{projects, entries, lastSaved}\<close> built by \<open>saveData\<close>.\<close>

definition snapshot :: "state \<Rightarrow> jsval" where
  "snapshot s =
     JObj [(js ''projects'', projects s),
           (js ''entries'', entries s),
           (js ''lastSaved'', JStr (now_iso s))]"

definition saveData :: "state \<Rightarrow> completion" where
  "saveData s =
     (case saveToLocalStorage (snapshot s) s of
        Inl x \<Rightarrow> Inl x
      | Inr s1 \<Rightarrow>
          (case setTimeout DeferredSave 500 (clearTimeout (saveTimeout s1) s1) of
             (h, s2) \<Rightarrow> Inr (s2\<lparr>saveTimeout := Some h\<rparr>)))"

text \<open>\<open>deferredSave\<close> only refreshes the "last saved" indicator.\<close>

definition deferredSave :: "state \<Rightarrow> state" where
  "deferredSave s = s\<lparr>lastSavedShown := Suc (lastSavedShown s)\<rparr>"

definition attemptSave :: "state \<Rightarrow> state" where
  "attemptSave s =
     (case saveData s of
        Inr s1 \<Rightarrow> s1\<lparr>retryCount := 0\<rparr>
      | Inl (e, s1) \<Rightarrow>
          if retryCount s1 < maxRetries s1 then
            snd (setTimeout RetrySave (1000 * (retryCount s1 + 1))
                   (s1\<lparr>retryCount := retryCount s1 + 1\<rparr>))
          else showMessage msg_save_error (js ''error'')
                 (console_error (RetriesExhausted e) s1))"

definition saveWithRetry :: "state \<Rightarrow> state" where
  "saveWithRetry s = attemptSave (s\<lparr>retryCount := 0\<rparr>)"

text \<open>
  The seeded projects. Their names are "Razrabotka", "Testirovanie", "Dizajn" and
  "Vstrechi" in Cyrillic.
\<close>

definition default_projects :: "jsval list" where
  "default_projects =
     [JObj [(js ''id'', JNum (Fin 1 0)),
            (js ''name'', JStr [0x420, 0x430, 0x437, 0x440, 0x430, 0x431, 0x43E, 0x442, 0x43A, 0x430]),
            (js ''color'', JStr (js ''#3b82f6''))],
      JObj [(js ''id'', JNum (Fin 2 0)),
            (js ''name'', JStr [0x422, 0x435, 0x441, 0x442, 0x438, 0x440, 0x43E, 0x432, 0x430,
                                0x43D, 0x438, 0x435]),
            (js ''color'', JStr (js ''#ef4444''))],
      JObj [(js ''id'', JNum (Fin 3 0)),
            (js ''name'', JStr [0x414, 0x438, 0x437, 0x430, 0x439, 0x43D]),
            (js ''color'', JStr (js ''#10b981''))],
      JObj [(js ''id'', JNum (Fin 4 0)),
            (js ''name'', JStr [0x412, 0x441, 0x442, 0x440, 0x435, 0x447, 0x438]),
            (js ''color'', JStr (js ''#f59e0b''))]]"

definition loadInitialData :: "state \<Rightarrow> state" where
  "loadInitialData s = s\<lparr>projects := JArr default_projects, entries := JArr []\<rparr>"









section \<open>Timers\<close>

text \<open>
  The event loop runs the callback of a pending timer; the timer is gone afterwards.
  A handle that is not pending does nothing.
\<close>

definition run_callback :: "callback \<Rightarrow> state \<Rightarrow> state" where
  "run_callback cb s =
     (case cb of
        DeferredSave \<Rightarrow> deferredSave s
      | RetrySave \<Rightarrow> attemptSave s
      | HideMessage \<Rightarrow> s)"

definition take_timer :: "nat \<Rightarrow> state \<Rightarrow> state" where
  "take_timer h s = s\<lparr>timers := filter (\<lambda>t. fst t \<noteq> h) (timers s)\<rparr>"

definition fire :: "nat \<Rightarrow> state \<Rightarrow> state" where
  "fire h s =
     (case find (\<lambda>t. fst t = h) (timers s) of
        None \<Rightarrow> s
      | Some (h', ms, cb) \<Rightarrow> run_callback cb (take_timer h s))"

definition pending_retry :: "state \<Rightarrow> (nat \<times> nat \<times> callback) option" where
  "pending_retry s = find (\<lambda>t. snd (snd t) = RetrySave) (timers s)"

text \<open>
  One call of \<open>saveWithRetry\<close> followed through its retry timers. Between two attempts
  the browser may change the storage (its contents, whether it is accessible): one
  function per retry says how. The result lists, for each attempt made, whether
  \<open>saveData\<close> threw, and gives the state after the last attempt.
\<close>

definition attempt_throws :: "state \<Rightarrow> bool" where
  "attempt_throws s = isl (saveData s)"

fun run_retries :: "(storage \<Rightarrow> storage) list \<Rightarrow> state \<Rightarrow> bool list \<times> state" where
  "run_retries [] s = ([], s)"
| "run_retries (ev # evs) s =
     (case pending_retry s of
        None \<Rightarrow> ([], s)
      | Some (h, ms, cb) \<Rightarrow>
          (case run_retries evs
                  (run_callback cb (take_timer h (s\<lparr>localStorage := ev (localStorage s)\<rparr>))) of
             (outs, s') \<Rightarrow>
               (attempt_throws (take_timer h (s\<lparr>localStorage := ev (localStorage s)\<rparr>)) # outs,
                s')))"

definition saveWithRetry_run :: "(storage \<Rightarrow> storage) list \<Rightarrow> state \<Rightarrow> bool list \<times> state" where
  "saveWithRetry_run evs s =
     (case run_retries evs (saveWithRetry s) of
        (outs, s') \<Rightarrow> (attempt_throws (s\<lparr>retryCount := 0\<rparr>) # outs, s'))"

section \<open>Entries and projects\<close>










section \<open>The offline cache gateway (sw.js)\<close>

text \<open>
  A URL by its components; \<open>search\<close> is empty or starts with \<open>?\<close>, \<open>hash\<close> is empty
  or starts with \<open>#\<close>. \<open>href\<close> is the string \<open>request.url\<close>. The cache compares URLs
  without their fragment.
\<close>

record url =
  origin :: jsstring
  pathname :: jsstring
  search :: jsstring
  hash :: jsstring

definition href :: "url \<Rightarrow> jsstring" where
  "href u = origin u @ pathname u @ search u @ hash u"

definition cache_key :: "url \<Rightarrow> jsstring" where
  "cache_key u = origin u @ pathname u @ search u"

record request =
  req_method :: jsstring
  req_url :: url
  destination :: jsstring

record response =
  status :: nat
  body :: jsstring

text \<open>
  The cache storage: the buckets by name, each a list of (URL, response). \<open>base\<close> is the
  directory of the worker script, against which \<open>./index.html\<close> and the entries of
  \<open>STATIC_FILES\<close> are resolved; \<open>self_origin\<close> is \<open>self.location.origin\<close>.
\<close>

record worker =
  caches :: "(jsstring \<times> (jsstring \<times> response) list) list"
  self_origin :: jsstring
  base :: jsstring

definition STATIC_CACHE :: jsstring where
  "STATIC_CACHE = js ''static-v1.1''"

definition STATIC_FILES :: "jsstring list" where
  "STATIC_FILES = [js ''./'', js ''./index.html'', js ''./404.html'', js ''./manifest.json'',
                   js ''./favicon.ico'']"

text \<open>A relative reference \<open>./x\<close> resolved against the worker's directory.\<close>

definition resolve :: "worker \<Rightarrow> jsstring \<Rightarrow> jsstring" where
  "resolve w ref = base w @ drop 2 ref"

text \<open>\<open>caches.match\<close>: the first bucket, in creation order, that has the URL.\<close>

fun match_in :: "(jsstring \<times> (jsstring \<times> response) list) list \<Rightarrow> jsstring \<Rightarrow> response option" where
  "match_in [] k = None"
| "match_in ((name, c) # bs) k =
     (case map_of c k of None \<Rightarrow> match_in bs k | Some r \<Rightarrow> Some r)"

definition caches_match :: "worker \<Rightarrow> jsstring \<Rightarrow> response option" where
  "caches_match w k = match_in (caches w) k"

text \<open>\<open>caches.open(name)\<close> creates the bucket when there is none.\<close>

definition caches_open :: "jsstring \<Rightarrow> worker \<Rightarrow> worker" where
  "caches_open name w =
     (case map_of (caches w) name of
        None \<Rightarrow> w\<lparr>caches := caches w @ [(name, [])]\<rparr>
      | Some c \<Rightarrow> w)"

definition cache_put :: "jsstring \<Rightarrow> jsstring \<Rightarrow> response \<Rightarrow> worker \<Rightarrow> worker" where
  "cache_put name k r w =
     w\<lparr>caches := map (\<lambda>(n, c). if n = name then (n, put_prop k r c) else (n, c)) (caches w)\<rparr>"

definition endsWith :: "jsstring \<Rightarrow> jsstring \<Rightarrow> bool" where
  "endsWith t suffix = (length suffix \<le> length t \<and> drop (length t - length suffix) t = suffix)"

text \<open>\<open>str.match(/\.(html|css|js|json)$/)\<close> finds a match.\<close>

definition matches_static :: "jsstring \<Rightarrow> bool" where
  "matches_static t =
     (endsWith t (js ''.html'') \<or> endsWith t (js ''.css'') \<or> endsWith t (js ''.js'')
      \<or> endsWith t (js ''.json''))"

text \<open>
  What the network does with a request that reaches it, and what becomes of the fetch
  event: the handler returns without \<open>respondWith\<close>, or the promise given to
  \<open>respondWith\<close> is fulfilled (with a response or with \<open>undefined\<close>) or rejected.
\<close>

datatype network = NetworkError | NetworkResponse response

datatype outcome = NotIntercepted | Fulfilled "response option" | Rejected

definition on_fetch :: "worker \<Rightarrow> request \<Rightarrow> network \<Rightarrow> outcome \<times> worker" where
  "on_fetch w req net =
     (if req_method req \<noteq> js ''GET'' then (NotIntercepted, w)
      else if origin (req_url req) \<noteq> self_origin w then (NotIntercepted, w)
      else
        (case caches_match w (cache_key (req_url req)) of
           Some cached \<Rightarrow> (Fulfilled (Some cached), w)
         | None \<Rightarrow>
             (case net of
                NetworkResponse fetchResponse \<Rightarrow>
                  (Fulfilled (Some fetchResponse),
                   if status fetchResponse = 200 then
                     (if matches_static (href (req_url req))
                      then cache_put STATIC_CACHE (cache_key (req_url req)) fetchResponse
                             (caches_open STATIC_CACHE w)
                      else caches_open STATIC_CACHE w)
                   else w)
              | NetworkError \<Rightarrow>
                  if destination req = js ''document''
                  then (Fulfilled (caches_match w (resolve w (js ''./index.html''))), w)
                  else (Fulfilled None, w))))"

text \<open>The static bucket's entry for a URL.\<close>

definition static_entry :: "worker \<Rightarrow> jsstring \<Rightarrow> response option" where
  "static_entry w k = (case map_of (caches w) STATIC_CACHE of None \<Rightarrow> None | Some c \<Rightarrow> map_of c k)"




section \<open>Concrete states\<close>

text \<open>
  A new \<open>WorkTimesheet\<close> as its constructor sets the fields, in a browser whose storage is
  empty with a quota of 5 Mi code units, at a clock reading of 1793000000000 ms; and the same
  in a browser that denies access to storage.
\<close>

definition fresh :: state where
  "fresh =
     \<lparr>projects = JArr [], entries = JArr [], isOnline = True, saveTimeout = None,
      retryCount = 0, maxRetries = 3,
      localStorage = Granted \<lparr>items = [], quota = 5242880\<rparr>,
      timers = [], scheduled = [], next_timer = 1, console_errors = [], messages = [],
      lastSavedShown = 0, now_iso = js ''2026-10-26T07:33:20.000Z'',
      Date_now = (\<lambda>n. 1793000000000 + int n), Math_random36 = (\<lambda>n. js ''0.4fzyo82mvyr''),
      draws = 0\<rparr>"

definition blocked :: state where
  "blocked = fresh\<lparr>localStorage := Denied\<rparr>"

text \<open>
  The seeded application, at the clock of \<open>fresh\<close> and on a machine whose clock was never
  set (21 hours after the epoch).
\<close>

definition seeded :: state where
  "seeded = loadInitialData fresh"


definition with_items :: "(jsstring \<times> jsstring) list \<Rightarrow> nat \<Rightarrow> state \<Rightarrow> state" where
  "with_items kvs q s = s\<lparr>localStorage := Granted \<lparr>items = kvs, quota = q\<rparr>\<rparr>"

section \<open>Observations\<close>

text \<open>The state a completed call leaves behind, whether it returned or threw.\<close>

definition final :: "completion \<Rightarrow> state" where
  "final c = (case c of Inl (e, s) \<Rightarrow> s | Inr s \<Rightarrow> s)"

text \<open>What the page can find in storage: nothing when access is denied.\<close>

definition stored_items :: "state \<Rightarrow> (jsstring \<times> jsstring) list" where
  "stored_items s = (case localStorage s of Denied \<Rightarrow> [] | Granted st \<Rightarrow> items st)"

definition stored :: "state \<Rightarrow> jsstring \<Rightarrow> jsstring option" where
  "stored s k = map_of (stored_items s) k"




text \<open>The storage keys in the application's namespace.\<close>

definition app_keys :: "state \<Rightarrow> jsstring list" where
  "app_keys s = filter (\<lambda>key. startsWith key key_prefix) (map fst (stored_items s))"

text \<open>A storage filled to its quota, with eleven keys in the application's namespace.\<close>

definition crowded :: state where
  "crowded = with_items
     [(js ''workTimesheet_k'', js ''1''), (js ''workTimesheet_b'', js ''2''),
      (js ''theme'', js ''dark''), (js ''workTimesheet_j'', js ''3''),
      (js ''workTimesheet_a'', js ''4''), (js ''workTimesheet_i'', js ''5''),
      (js ''workTimesheet_c'', js ''6''), (js ''workTimesheet_h'', js ''7''),
      (js ''workTimesheet_d'', js ''8''), (js ''workTimesheet_g'', js ''9''),
      (js ''workTimesheet_e'', js ''10''), (js ''workTimesheet_f'', js ''11'')] 187 fresh"

text \<open>
  The state in which the next attempt starts after an attempt that failed on a denied
  storage and scheduled a retry: the retry timer has fired and the browser has applied
  \<open>ev\<close> to the storage.
\<close>

definition retry_from :: "(storage \<Rightarrow> storage) \<Rightarrow> state \<Rightarrow> state" where
  "retry_from ev a =
     a\<lparr>console_errors := console_errors a @ [SaveError SecurityError],
       retryCount := Suc (retryCount a),
       timers := filter (\<lambda>t. fst t \<noteq> next_timer a) (timers a),
       scheduled := scheduled a @ [(1000 * Suc (retryCount a), RetrySave)],
       next_timer := Suc (next_timer a),
       localStorage := ev Denied\<rparr>"






text \<open>
  A worker at \<open>https://example.org/app/\<close> after installation, with the five static
  files in its static bucket; responses and requests for the fetch scenarios.
\<close>

definition page :: "string \<Rightarrow> response" where
  "page t = \<lparr>status = 200, body = js t\<rparr>"

definition installed :: worker where
  "installed =
     \<lparr>caches =
        [(STATIC_CACHE,
          [(js ''https://example.org/app/'', page ''<html>timesheet</html>''),
           (js ''https://example.org/app/index.html'', page ''<html>timesheet</html>''),
           (js ''https://example.org/app/404.html'', page ''<html>not found</html>''),
           (js ''https://example.org/app/manifest.json'', page ''{}''),
           (js ''https://example.org/app/favicon.ico'', page ''icon'')])],
      self_origin = js ''https://example.org'',
      base = js ''https://example.org/app/''\<rparr>"

definition get_request :: "string \<Rightarrow> string \<Rightarrow> string \<Rightarrow> request" where
  "get_request path query dest =
     \<lparr>req_method = js ''GET'',
      req_url = \<lparr>origin = js ''https://example.org'', pathname = js path, search = js query,
                 hash = []\<rparr>,
      destination = js dest\<rparr>"

text \<open>
  The seeded application with one booked entry of 7.5 hours on project 2, on a page with
  empty storage.
\<close>

definition booked_entry :: jsval where
  "booked_entry =
     JObj [(js ''id'', JStr (js ''mh7k2q9x4fzyo82mvyr'')),
           (js ''date'', JStr (js ''2026-10-26'')),
           (js ''projectId'', JNum (Fin 2 0)),
           (js ''hours'', JNum (Fin 75 (- 1))),
           (js ''createdAt'', JStr (js ''2026-10-26T07:33:20.000Z'')),
           (js ''synced'', JBool True)]"

definition booked :: state where
  "booked = seeded\<lparr>entries := JArr [booked_entry]\<rparr>"

section \<open>Saving: auxiliary facts\<close>

lemma forEach_removeItem_granted:
  "localStorage s = Granted st \<Longrightarrow>
   forEach_removeItem ks s =
     Inr (s\<lparr>localStorage := Granted (st\<lparr>items := filter (\<lambda>kv. fst kv \<notin> set ks) (items st)\<rparr>)\<rparr>)"
proof (induction ks arbitrary: s st)
  case Nil
  then show ?case by simp
next
  case (Cons k ks)
  let ?st' = "st\<lparr>items := filter (\<lambda>kv. fst kv \<noteq> k) (items st)\<rparr>"
  let ?s' = "s\<lparr>localStorage := Granted ?st'\<rparr>"
  have step: "ls_removeItem k s = Inr ?s'"
    using Cons.prems by (simp add: ls_removeItem_def)
  have "localStorage ?s' = Granted ?st'" by simp
  from Cons.IH [OF this] step show ?case
    by (simp add: conj_commute)
qed

lemma cleanupStorage_granted:
  "localStorage s = Granted st \<Longrightarrow>
   cleanupStorage s =
     Inr (if length (app_keys s) > 10
          then s\<lparr>localStorage := Granted (st\<lparr>items :=
                  filter (\<lambda>kv. fst kv \<notin> set (take 5 (sort (app_keys s)))) (items st)\<rparr>)\<rparr>
          else s)"
  by (simp add: cleanupStorage_def ls_keys_def app_keys_def stored_items_def
      forEach_removeItem_granted Let_def)

lemma cleanupStorage_denied:
  "localStorage s = Denied \<Longrightarrow> cleanupStorage s = Inl (SecurityError, s)"
  by (simp add: cleanupStorage_def ls_keys_def)

lemma saveToLocalStorage_frame:
  assumes "localStorage s = Granted st"
  shows "\<exists>s'. saveToLocalStorage data s = Inr s' \<and> localStorage s' \<noteq> Denied \<and>
           s' = s\<lparr>localStorage := localStorage s', console_errors := console_errors s'\<rparr>"
  using assms
  by (simp add: saveToLocalStorage_def ls_setItem_def cleanupStorage_granted console_error_def)

lemma saveToLocalStorage_granted:
  assumes "localStorage s = Granted st"
  shows "\<exists>L E. saveToLocalStorage data s = Inr (s\<lparr>localStorage := L, console_errors := E\<rparr>)
           \<and> L \<noteq> Denied"
proof -
  from saveToLocalStorage_frame [OF assms, of data]
  obtain s' where 1: "saveToLocalStorage data s = Inr s'"
    and 2: "localStorage s' \<noteq> Denied"
    and 3: "s' = s\<lparr>localStorage := localStorage s', console_errors := console_errors s'\<rparr>"
    by blast
  from 1 3 have "saveToLocalStorage data s =
      Inr (s\<lparr>localStorage := localStorage s', console_errors := console_errors s'\<rparr>)"
    by metis
  with 2 show ?thesis by blast
qed

lemma saveToLocalStorage_denied:
  "localStorage s = Denied \<Longrightarrow>
   saveToLocalStorage data s = Inl (SecurityError, console_error (SaveError SecurityError) s)"
  by (simp add: saveToLocalStorage_def ls_setItem_def cleanupStorage_denied console_error_def)

lemma saveData_denied:
  "localStorage s = Denied \<Longrightarrow>
   saveData s = Inl (SecurityError, console_error (SaveError SecurityError) s)"
  by (simp add: saveData_def saveToLocalStorage_denied)

lemma saveData_granted:
  assumes "localStorage s = Granted st"
  shows "\<exists>L E. saveData s =
           Inr (s\<lparr>localStorage := L, console_errors := E,
                  timers := filter (\<lambda>t. Some (fst t) \<noteq> saveTimeout s) (timers s)
                              @ [(next_timer s, 500, DeferredSave)],
                  scheduled := scheduled s @ [(500, DeferredSave)],
                  next_timer := Suc (next_timer s),
                  saveTimeout := Some (next_timer s)\<rparr>)
           \<and> L \<noteq> Denied"
proof -
  from saveToLocalStorage_granted [OF assms, of "snapshot s"]
  obtain L E where 1: "saveToLocalStorage (snapshot s) s =
        Inr (s\<lparr>localStorage := L, console_errors := E\<rparr>)"
    and 2: "L \<noteq> Denied"
    by blast
  have "saveData s = Inr (s\<lparr>localStorage := L, console_errors := E,
                  timers := filter (\<lambda>t. Some (fst t) \<noteq> saveTimeout s) (timers s)
                              @ [(next_timer s, 500, DeferredSave)],
                  scheduled := scheduled s @ [(500, DeferredSave)],
                  next_timer := Suc (next_timer s),
                  saveTimeout := Some (next_timer s)\<rparr>)"
    using 1 by (simp add: saveData_def setTimeout_def clearTimeout_def)
  with 2 show ?thesis by blast
qed

lemma attempt_throws_iff: "attempt_throws s \<longleftrightarrow> localStorage s = Denied"
proof (cases "localStorage s")
  case Denied
  then show ?thesis by (simp add: attempt_throws_def saveData_denied)
next
  case (Granted st)
  from saveData_granted [OF this] show ?thesis using Granted
    by (auto simp: attempt_throws_def)
qed


lemma attemptSave_granted:
  assumes "localStorage s = Granted st"
  shows "\<exists>L E. attemptSave s =
           s\<lparr>localStorage := L, console_errors := E,
             timers := filter (\<lambda>t. Some (fst t) \<noteq> saveTimeout s) (timers s)
                         @ [(next_timer s, 500, DeferredSave)],
             scheduled := scheduled s @ [(500, DeferredSave)],
             next_timer := Suc (next_timer s),
             saveTimeout := Some (next_timer s),
             retryCount := 0\<rparr>
           \<and> L \<noteq> Denied"
proof -
  from saveData_granted [OF assms] obtain L E where
    1: "saveData s =
           Inr (s\<lparr>localStorage := L, console_errors := E,
                  timers := filter (\<lambda>t. Some (fst t) \<noteq> saveTimeout s) (timers s)
                              @ [(next_timer s, 500, DeferredSave)],
                  scheduled := scheduled s @ [(500, DeferredSave)],
                  next_timer := Suc (next_timer s),
                  saveTimeout := Some (next_timer s)\<rparr>)" and 2: "L \<noteq> Denied"
    by blast
  have "attemptSave s =
           s\<lparr>localStorage := L, console_errors := E,
             timers := filter (\<lambda>t. Some (fst t) \<noteq> saveTimeout s) (timers s)
                         @ [(next_timer s, 500, DeferredSave)],
             scheduled := scheduled s @ [(500, DeferredSave)],
             next_timer := Suc (next_timer s),
             saveTimeout := Some (next_timer s),
             retryCount := 0\<rparr>"
    by (simp add: attemptSave_def 1)
  with 2 show ?thesis by blast
qed

lemma attemptSave_denied_retry:
  "localStorage s = Denied \<Longrightarrow> retryCount s < maxRetries s \<Longrightarrow>
   attemptSave s =
     s\<lparr>console_errors := console_errors s @ [SaveError SecurityError],
       retryCount := Suc (retryCount s),
       timers := timers s @ [(next_timer s, 1000 * Suc (retryCount s), RetrySave)],
       scheduled := scheduled s @ [(1000 * Suc (retryCount s), RetrySave)],
       next_timer := Suc (next_timer s)\<rparr>"
  by (simp add: attemptSave_def saveData_denied console_error_def setTimeout_def)

lemma attemptSave_denied_give_up:
  "localStorage s = Denied \<Longrightarrow> \<not> retryCount s < maxRetries s \<Longrightarrow>
   attemptSave s =
     s\<lparr>console_errors := console_errors s
                           @ [SaveError SecurityError, RetriesExhausted SecurityError],
       messages := messages s @ [(msg_save_error, js ''error'')],
       timers := timers s @ [(next_timer s, 3000, HideMessage)],
       scheduled := scheduled s @ [(3000, HideMessage)],
       next_timer := Suc (next_timer s)\<rparr>"
  by (simp add: attemptSave_def saveData_denied console_error_def setTimeout_def showMessage_def)

lemma find_filter_None: "find P xs = None \<Longrightarrow> find P (filter Q xs) = None"
  by (induction xs) (auto split: if_splits)

lemma find_append_None: "find P xs = None \<Longrightarrow> find P (xs @ ys) = find P ys"
  by (induction xs) (auto split: if_splits)

lemma pending_retry_retry_from:
  "pending_retry a = None \<Longrightarrow> pending_retry (retry_from ev a) = None"
  by (simp add: pending_retry_def retry_from_def find_filter_None)

lemma failed_attempt_step:
  assumes "pending_retry a = None" "localStorage a = Denied" "retryCount a < maxRetries a"
  shows "run_retries (ev # evs) (attemptSave a) =
           (attempt_throws (retry_from ev a) # fst (run_retries evs (attemptSave (retry_from ev a))),
            snd (run_retries evs (attemptSave (retry_from ev a))))"
proof -
  let ?s1 = "attemptSave a"
  have s1: "?s1 = a\<lparr>console_errors := console_errors a @ [SaveError SecurityError],
       retryCount := Suc (retryCount a),
       timers := timers a @ [(next_timer a, 1000 * Suc (retryCount a), RetrySave)],
       scheduled := scheduled a @ [(1000 * Suc (retryCount a), RetrySave)],
       next_timer := Suc (next_timer a)\<rparr>"
    using assms by (rule_tac attemptSave_denied_retry)
  have p: "pending_retry ?s1 = Some (next_timer a, 1000 * Suc (retryCount a), RetrySave)"
    using assms(1) by (simp add: s1 pending_retry_def find_append_None)
  have t: "take_timer (next_timer a) (?s1\<lparr>localStorage := ev (localStorage ?s1)\<rparr>) = retry_from ev a"
    using assms(2) by (simp add: s1 take_timer_def retry_from_def)
  show ?thesis
    by (simp add: p t run_callback_def split: prod.splits)
qed

declare run_retries.simps [simp del]

lemma last_attempt_step:
  assumes "pending_retry a = None"
    and "localStorage a \<noteq> Denied \<or> \<not> retryCount a < maxRetries a"
  shows "run_retries evs (attemptSave a) = ([], attemptSave a)"
proof -
  have "pending_retry (attemptSave a) = None"
  proof (cases "localStorage a")
    case Denied
    with assms(2) have "\<not> retryCount a < maxRetries a" by simp
    from attemptSave_denied_give_up [OF Denied this] show ?thesis
      using assms(1) by (simp add: pending_retry_def find_append_None)
  next
    case (Granted st)
    from attemptSave_granted [OF this] show ?thesis
      using assms(1) by (auto simp: pending_retry_def find_append_None find_filter_None)
  qed
  then show ?thesis by (cases evs) (simp_all add: run_retries.simps)
qed

lemma blocked_facts:
  "localStorage blocked = Denied" "pending_retry blocked = None" "maxRetries blocked = 3"
  "scheduled blocked = []" "messages blocked = []" "projects blocked = JArr []"
  "entries blocked = JArr []" "retryCount blocked = 0"
  by (simp_all add: blocked_def fresh_def pending_retry_def)

lemma saveToLocalStorage_unfold:
  "(ls_setItem key_data (JSON_stringify data) s = Inl (e, s1) \<longrightarrow>
      saveToLocalStorage data s = cleanupStorage (console_error (SaveError e) s1)) \<and>
   (ls_setItem key_data (JSON_stringify data) s = Inr s1 \<and>
    ls_setItem key_backup (JSON_stringify data) s1 = Inl (e, s2) \<longrightarrow>
      saveToLocalStorage data s = cleanupStorage (console_error (SaveError e) s2)) \<and>
   (ls_setItem key_data (JSON_stringify data) s = Inr s1 \<and>
    ls_setItem key_backup (JSON_stringify data) s1 = Inr s2 \<longrightarrow>
      saveToLocalStorage data s = Inr s2)"
  by (simp add: saveToLocalStorage_def)

lemma cleanupStorage_items:
  "stored_items (final (cleanupStorage s)) =
     (if 10 < length (app_keys s)
      then filter (\<lambda>kv. fst kv \<notin> set (take 5 (sort (app_keys s)))) (stored_items s)
      else stored_items s)"
proof (cases "localStorage s")
  case Denied
  then show ?thesis
    by (simp add: cleanupStorage_denied final_def stored_items_def app_keys_def)
next
  case (Granted st)
  then show ?thesis
    by (simp add: cleanupStorage_granted final_def stored_items_def)
qed

lemma five_smallest:
  fixes ks :: "jsstring list"
  assumes "distinct ks" "10 < length ks"
  shows "length (take 5 (sort ks)) = 5 \<and> distinct (take 5 (sort ks)) \<and>
         set (take 5 (sort ks)) \<subseteq> set ks \<and>
         (\<forall>d \<in> set (take 5 (sort ks)). \<forall>k \<in> set ks - set (take 5 (sort ks)). d < k)"
proof -
  let ?xs = "sort ks"
  have len: "length (take 5 ?xs) = 5" using assms(2) by simp
  have dis: "distinct (take 5 ?xs)" using assms(1) by (simp add: distinct_take)
  have sub: "set (take 5 ?xs) \<subseteq> set ks" using set_take_subset [of 5 ?xs] by simp
  have "sorted (take 5 ?xs @ drop 5 ?xs)" by simp
  then have le: "\<forall>d \<in> set (take 5 ?xs). \<forall>k \<in> set (drop 5 ?xs). d \<le> k"
    unfolding sorted_append by blast
  have "\<forall>d \<in> set (take 5 ?xs). \<forall>k \<in> set ks - set (take 5 ?xs). d < k"
  proof (intro ballI)
    fix d k assume d: "d \<in> set (take 5 ?xs)" and k: "k \<in> set ks - set (take 5 ?xs)"
    have "set ks = set (take 5 ?xs) \<union> set (drop 5 ?xs)"
      using set_append [of "take 5 ?xs" "drop 5 ?xs"] by simp
    with k have "k \<in> set (drop 5 ?xs)" by blast
    with le d have "d \<le> k" by blast
    moreover from d k have "d \<noteq> k" by blast
    ultimately show "d < k" by simp
  qed
  with len dis sub show ?thesis by blast
qed

lemma crowded_keys: "app_keys crowded =
   [js ''workTimesheet_k'', js ''workTimesheet_b'', js ''workTimesheet_j'',
      js ''workTimesheet_a'', js ''workTimesheet_i'',
      js ''workTimesheet_c'', js ''workTimesheet_h'',
      js ''workTimesheet_d'', js ''workTimesheet_g'',
      js ''workTimesheet_e'', js ''workTimesheet_f'']"
  by (simp add: app_keys_def crowded_def with_items_def stored_items_def startsWith_def key_prefix_def js_def)

lemma crowded_sorted: "take 5 (sort (app_keys crowded)) =
   [js ''workTimesheet_a'', js ''workTimesheet_b'', js ''workTimesheet_c'', js ''workTimesheet_d'', js ''workTimesheet_e'']"
  by (simp add: crowded_keys js_def)


lemma crowded_write_fails:
  "ls_setItem key_data v crowded = Inl (QuotaExceededError, crowded)"
  by (simp add: ls_setItem_def crowded_def with_items_def key_data_def usage_def js_def)

section \<open>Loading: auxiliary facts\<close>



lemma map_of_put_prop: "map_of (put_prop k v kvs) = (map_of kvs)(k \<mapsto> v)"
  by (induction kvs) (auto simp: fun_eq_iff)

lemma keys_differ: "key_data \<noteq> key_backup"
  by (simp add: key_data_def key_backup_def js_def)

lemmas keys_distinct = keys_differ keys_differ [symmetric]







lemma key_lengths: "length key_data = 18" "length key_backup = 20"
  by (simp_all add: key_data_def key_backup_def js_def)









section \<open>Ids and the project lookup: auxiliary facts\<close>





















section \<open>The cache gateway: auxiliary facts\<close>

lemma match_in_None:
  "match_in bs k = None \<Longrightarrow> map_of bs name = Some c \<Longrightarrow> map_of c k = None"
  by (induction bs) (auto split: option.splits if_splits)

lemma static_entry_miss: "caches_match w k = None \<Longrightarrow> static_entry w k = None"
  by (auto simp: caches_match_def static_entry_def dest: match_in_None split: option.splits)

lemma static_entry_caches_open:
  "static_entry (caches_open STATIC_CACHE w) k = static_entry w k"
  by (simp add: static_entry_def caches_open_def map_of_append map_add_def split: option.splits)

lemma map_of_put_bucket:
  "map_of (map (\<lambda>(n, c). if n = name then (n, put_prop k r c) else (n, c)) bs) name =
   map_option (put_prop k r) (map_of bs name)"
  by (induction bs) auto

lemma map_of_put_prop_same: "map_of (put_prop k v kvs) k = Some v"
  by (induction kvs) auto

lemma static_entry_put:
  "static_entry (cache_put STATIC_CACHE k r (caches_open STATIC_CACHE w)) k = Some r"
proof -
  have "map_of (caches (caches_open STATIC_CACHE w)) STATIC_CACHE \<noteq> None"
    by (simp add: caches_open_def map_of_append map_add_def split: option.splits)
  then show ?thesis
    by (auto simp: static_entry_def cache_put_def map_of_put_bucket map_of_put_prop_same)
qed

lemma endsWith_iff: "endsWith t suffix \<longleftrightarrow> (\<exists>pre. t = pre @ suffix)"
proof
  assume "endsWith t suffix"
  then have "t = take (length t - length suffix) t @ suffix"
    by (metis append_take_drop_id endsWith_def)
  then show "\<exists>pre. t = pre @ suffix" ..
next
  assume "\<exists>pre. t = pre @ suffix"
  then show "endsWith t suffix" by (auto simp: endsWith_def)
qed

lemma endsWith_after_slash:
  assumes "take 1 p = js ''/''" and "of_char CHR ''/'' \<notin> set suffix"
  shows "endsWith (og @ p) suffix \<longleftrightarrow> endsWith p suffix"
proof
  assume "endsWith (og @ p) suffix"
  then obtain pre where "og @ p = pre @ suffix" unfolding endsWith_iff ..
  then obtain us where "og = pre @ us \<and> us @ p = suffix \<or> og @ us = pre \<and> p = us @ suffix"
    unfolding append_eq_append_conv2 by blast
  moreover have "us @ p \<noteq> suffix" for us
  proof
    assume "us @ p = suffix"
    moreover from assms(1) obtain q where "p = of_char CHR ''/'' # q"
      by (cases p) (auto simp: js_def)
    ultimately have "of_char CHR ''/'' \<in> set suffix" by auto
    with assms(2) show False ..
  qed
  ultimately show "endsWith p suffix" unfolding endsWith_iff by blast
next
  assume "endsWith p suffix"
  then show "endsWith (og @ p) suffix" unfolding endsWith_iff by auto
qed

lemma matches_static_path:
  "take 1 p = js ''/'' \<Longrightarrow> matches_static (og @ p) \<longleftrightarrow> matches_static p"
  by (simp add: matches_static_def endsWith_after_slash js_def)

lemma endsWith_last: "endsWith t suffix \<Longrightarrow> suffix \<noteq> [] \<Longrightarrow> last t = last suffix"
  unfolding endsWith_iff by auto

lemma png_not_static: "endsWith t (js ''.png'') \<Longrightarrow> \<not> matches_static t"
proof
  assume a: "endsWith t (js ''.png'')" and "matches_static t"
  from endsWith_last [OF a] have l: "last t = of_char CHR ''g''" by (simp add: js_def)
  from \<open>matches_static t\<close> show False
    unfolding matches_static_def
    by (auto dest!: endsWith_last simp: l js_def)
qed

lemma js_matches_static: "endsWith t (js ''.js'') \<Longrightarrow> matches_static t"
  by (simp add: matches_static_def)

lemma installed_facts:
  "self_origin installed = js ''https://example.org''"
  "resolve installed (js ''./index.html'') = js ''https://example.org/app/index.html''"
  by (simp_all add: installed_def resolve_def js_def)

lemma get_request_facts:
  "req_method (get_request p q d) = js ''GET''"
  "origin (req_url (get_request p q d)) = js ''https://example.org''"
  "pathname (req_url (get_request p q d)) = js p"
  "search (req_url (get_request p q d)) = js q"
  "hash (req_url (get_request p q d)) = []"
  "destination (get_request p q d) = js d"
  "cache_key (req_url (get_request p q d)) = js ''https://example.org'' @ js p @ js q"
  "href (req_url (get_request p q d)) = js ''https://example.org'' @ js p @ js q"
  by (simp_all add: get_request_def cache_key_def href_def)

lemma installed_lookup:
  "caches_match installed (js ''https://example.org/app/index.html'') =
     Some (page ''<html>timesheet</html>'')"
  "caches_match installed (js ''https://example.org/app/app.js'') = None"
  "caches_match installed (js ''https://example.org/app/app.js?v=2'') = None"
  "caches_match installed (js ''https://example.org/app/logo.png'') = None"
  "caches_match installed (js ''https://example.org/app/report'') = None"
  by (simp_all add: caches_match_def installed_def js_def)

lemma js_append: "js a @ js b = js (a @ b)"
  by (simp add: js_def)

lemma endsWith_js: "endsWith (js ''/app/app.js'') (js ''.js'')"
  "endsWith (js ''/app/logo.png'') (js ''.png'')"
  by (simp_all add: endsWith_def js_def)

lemma query_not_static: "\<not> matches_static (js ''https://example.org/app/app.js?v=2'')"
  by (simp add: matches_static_def endsWith_def js_def)

section \<open>JSON round trip: auxiliary facts\<close>

lemma hex_split:
  fixes n :: nat
  shows "((n div 4096 * 16 + n div 256 mod 16) * 16 + n div 16 mod 16) * 16 + n mod 16 = n"
proof -
  define q1 where "q1 = n div 16"
  define q2 where "q2 = q1 div 16"
  have a: "n div 256 = q2" "n div 4096 = q2 div 16"
    by (simp_all add: q1_def q2_def div_mult2_eq)
  have "q2 div 16 * 16 + q2 mod 16 = q2" by simp
  moreover have "q2 * 16 + q1 mod 16 = q1" by (simp add: q2_def)
  moreover have "q1 * 16 + n mod 16 = n" by (simp add: q1_def)
  ultimately show ?thesis unfolding a q1_def [symmetric] by simp
qed

lemma hex_digits: "list_all (\<lambda>d. hex_val (digit_char d) = Some d) [0..<16]"
  by code_simp

lemma hex_val_digit_char: "d < 16 \<Longrightarrow> hex_val (digit_char d) = Some d"
proof -
  assume "d < 16"
  then have "d \<in> set [0..<16]" by (simp only: set_upt atLeastLessThan_iff) simp
  with hex_digits show ?thesis by (simp only: list_all_iff)
qed

lemma parse_hex4_digits:
  "parse_hex4 (digit_char (unat c div 4096)) (digit_char (unat c div 256 mod 16))
     (digit_char (unat c div 16 mod 16)) (digit_char (unat c mod 16)) = Some c"
proof -
  let ?n = "unat c"
  have "?n < 65536" using unsigned_less [of c, where 'a = nat] by simp
  then have "?n div 4096 < 16" by simp
  then have h: "hex_val (digit_char (?n div 4096)) = Some (?n div 4096)"
    "hex_val (digit_char (?n div 256 mod 16)) = Some (?n div 256 mod 16)"
    "hex_val (digit_char (?n div 16 mod 16)) = Some (?n div 16 mod 16)"
    "hex_val (digit_char (?n mod 16)) = Some (?n mod 16)"
    by (simp_all add: hex_val_digit_char)
  have "parse_hex4 (digit_char (?n div 4096)) (digit_char (?n div 256 mod 16))
     (digit_char (?n div 16 mod 16)) (digit_char (?n mod 16)) =
     Some (of_nat (((?n div 4096 * 16 + ?n div 256 mod 16) * 16 + ?n div 16 mod 16) * 16
                   + ?n mod 16))"
    unfolding parse_hex4_def h by simp
  also have "\<dots> = Some (of_nat ?n)" unfolding hex_split ..
  finally show ?thesis by simp
qed

lemma parse_chars_unicode_escape:
  "parse_chars (unicode_escape c @ tail) =
     (case parse_chars tail of None \<Rightarrow> None | Some (t, r) \<Rightarrow> Some (c # t, r))"
  by (simp add: unicode_escape_def hex4_def Let_def parse_hex4_digits)

lemma quote_unit_short:
  "c \<in> {0x08, 0x09, 0x0A, 0x0C, 0x0D, 0x22, 0x5C} \<Longrightarrow>
   \<exists>e. quote_unit c = [0x5C, e] \<and> e \<noteq> 0x75 \<and> unescape e = Some c"
  by (auto simp: quote_unit_def unescape_def)

lemma parse_chars_quote_unit:
  "parse_chars (quote_unit c @ tail) =
     (case parse_chars tail of None \<Rightarrow> None | Some (t, r) \<Rightarrow> Some (c # t, r))"
proof -
  consider (short) "c \<in> {0x08, 0x09, 0x0A, 0x0C, 0x0D, 0x22, 0x5C}"
    | (long) "c \<notin> {0x08, 0x09, 0x0A, 0x0C, 0x0D, 0x22, 0x5C}"
      "c < 0x20 \<or> is_high_surrogate c \<or> is_low_surrogate c"
    | (plain) "c \<notin> {0x08, 0x09, 0x0A, 0x0C, 0x0D, 0x22, 0x5C}"
      "\<not> (c < 0x20 \<or> is_high_surrogate c \<or> is_low_surrogate c)"
    by blast
  then show ?thesis
  proof cases
    case short
    from quote_unit_short [OF this] obtain e where
      "quote_unit c = [0x5C, e]" "e \<noteq> 0x75" "unescape e = Some c" by blast
    then show ?thesis by simp
  next
    case long
    then have "quote_unit c = unicode_escape c" by (simp add: quote_unit_def)
    then show ?thesis by (simp add: parse_chars_unicode_escape)
  next
    case plain
    then have "quote_unit c = [c]" by (simp add: quote_unit_def)
    with plain show ?thesis by simp
  qed
qed

lemma surrogate_plain:
  "is_high_surrogate c \<or> is_low_surrogate c \<Longrightarrow> c \<noteq> 0x22 \<and> c \<noteq> 0x5C \<and> \<not> c < 0x20"
  by (auto simp: is_high_surrogate_def is_low_surrogate_def word_le_nat_alt word_less_nat_alt)

lemma parse_chars_quote_units:
  "parse_chars (quote_units s @ 0x22 # rest) = Some (s, rest)"
proof (induction s rule: quote_units.induct)
  case 1
  show ?case by simp
next
  case (2 c)
  show ?case by (simp add: parse_chars_quote_unit)
next
  case (3 c d cs)
  show ?case
  proof (cases "is_high_surrogate c \<and> is_low_surrogate d")
    case True
    then have q: "quote_units (c # d # cs) = c # d # quote_units cs" by simp
    from True 3 have ih: "parse_chars (quote_units cs @ 0x22 # rest) = Some (cs, rest)" by blast
    from True surrogate_plain [of c] surrogate_plain [of d]
    have "c \<noteq> 0x22 \<and> c \<noteq> 0x5C \<and> \<not> c < 0x20" "d \<noteq> 0x22 \<and> d \<noteq> 0x5C \<and> \<not> d < 0x20"
      by blast+
    then show ?thesis unfolding q by (simp add: ih)
  next
    case False
    have q: "quote_units (c # d # cs) @ 0x22 # rest =
        quote_unit c @ (quote_units (d # cs) @ 0x22 # rest)"
      by (subst quote_units.simps(3)) (simp only: False if_False append_assoc)
    from False 3 have ih: "parse_chars (quote_units (d # cs) @ 0x22 # rest) = Some (d # cs, rest)"
      by blast
    show ?thesis unfolding q parse_chars_quote_unit ih by simp
  qed
qed

lemma dec_digits:
  "list_all (\<lambda>d. is_digit (digit_char d) \<and> digit_val (digit_char d) = d \<and>
                  (digit_char d = 0x30 \<longleftrightarrow> d = 0)) [0..<10]"
  by code_simp

lemma dec_digit:
  assumes "d < 10"
  shows "is_digit (digit_char d)" "digit_val (digit_char d) = d" "digit_char d = 0x30 \<longleftrightarrow> d = 0"
proof -
  from assms have "d \<in> set [0..<10]" by (simp only: set_upt atLeastLessThan_iff) simp
  with dec_digits have "is_digit (digit_char d) \<and> digit_val (digit_char d) = d \<and>
                  (digit_char d = 0x30 \<longleftrightarrow> d = 0)" by (simp only: list_all_iff)
  then show "is_digit (digit_char d)" "digit_val (digit_char d) = d"
    "digit_char d = 0x30 \<longleftrightarrow> d = 0" by blast+
qed

lemma digits_val_snoc: "digits_val (xs @ [c]) = 10 * digits_val xs + digit_val c"
  by (simp add: digits_val_def)

lemma digits_val_append:
  "digits_val (xs @ ys) = digits_val xs * 10 ^ length ys + digits_val ys"
proof (induction ys rule: rev_induct)
  case Nil
  show ?case by (simp add: digits_val_def)
next
  case (snoc y ys)
  have "digits_val (xs @ ys @ [y]) = 10 * digits_val (xs @ ys) + digit_val y"
    using digits_val_snoc [of "xs @ ys" y] by simp
  then show ?case by (simp add: snoc digits_val_snoc algebra_simps)
qed

lemma digits_val_zeros: "digits_val (replicate k (digit_char 0)) = 0"
proof (induction k)
  case 0
  show ?case by (simp add: digits_val_def)
next
  case (Suc k)
  have "replicate (Suc k) (digit_char 0) = replicate k (digit_char 0) @ [digit_char 0]"
    by (simp add: replicate_append_same)
  then show ?case by (simp only: digits_val_snoc Suc) (simp add: dec_digit(2))
qed

lemma digits_in_10:
  "list_all is_digit (digits_in 10 n) \<and> digits_val (digits_in 10 n) = n \<and>
   (0 < n \<longrightarrow> hd (digits_in 10 n) \<noteq> 0x30)"
proof (induction "10::nat" n rule: digits_in.induct)
  case (1 n)
  show ?case
  proof (cases "n < 10")
    case True
    then have "digits_in 10 n = [digit_char n]" by (subst digits_in.simps) simp
    with True show ?thesis by (simp add: dec_digit digits_val_def)
  next
    case False
    then have d: "digits_in 10 n = digits_in 10 (n div 10) @ [digit_char (n mod 10)]"
      by (subst digits_in.simps) simp
    from False 1 have ih: "list_all is_digit (digits_in 10 (n div 10))"
      "digits_val (digits_in 10 (n div 10)) = n div 10"
      "0 < n div 10 \<longrightarrow> hd (digits_in 10 (n div 10)) \<noteq> 0x30"
      by simp_all
    have ne: "digits_in 10 (n div 10) \<noteq> []" by (subst digits_in.simps) simp
    have pos: "0 < n div 10" using False by simp
    show ?thesis
      unfolding d using ih ne pos
      by (simp add: digits_val_snoc dec_digit)
  qed
qed

lemma digits_in_nonempty10: "digits_in 10 n \<noteq> []"
  by (subst digits_in.simps) simp

lemma scan_digits:
  "list_all is_digit ds \<Longrightarrow> (case r of [] \<Rightarrow> True | c # cs \<Rightarrow> \<not> is_digit c) \<Longrightarrow>
   takeWhile is_digit (ds @ r) = ds \<and> dropWhile is_digit (ds @ r) = r"
  by (induction ds) (auto split: list.splits)

lemma norm_dec_normal: "m \<noteq> 0 \<Longrightarrow> m mod 10 \<noteq> 0 \<Longrightarrow> norm_dec m e = (m, e)"
  by simp

lemma norm_dec_zero: "norm_dec 0 e = (0, 0)"
  by simp

declare norm_dec.simps [simp del]

lemma norm_dec_result:
  "norm_dec m e = (m', e') \<Longrightarrow> m' = 0 \<and> e' = 0 \<or> m' \<noteq> 0 \<and> m' mod 10 \<noteq> 0"
proof (induction m e rule: norm_dec.induct)
  case (1 m e)
  then show ?case
    by (subst (asm) (2) norm_dec.simps) (auto split: if_splits)
qed

lemma norm_dec_idem: "norm_dec m e = (m', e') \<Longrightarrow> norm_dec m' e' = (m', e')"
  using norm_dec_result [of m e m' e'] by (auto simp: norm_dec_zero norm_dec_normal)

lemma norm_dec_shift: "norm_dec (m * 10 ^ j) e = norm_dec m (e + int j)"
proof (induction j arbitrary: e)
  case 0
  show ?case by simp
next
  case (Suc j)
  show ?case
  proof (cases "m = 0")
    case True
    then show ?thesis by (simp add: norm_dec_zero)
  next
    case False
    have "norm_dec (m * 10 ^ Suc j) e = norm_dec (m * 10 ^ Suc j div 10) (e + 1)"
      using False by (subst norm_dec.simps) simp
    also have "m * 10 ^ Suc j div 10 = m * 10 ^ j" by simp
    also have "norm_dec (m * 10 ^ j) (e + 1) = norm_dec m (e + 1 + int j)" by (rule Suc)
    finally show ?thesis by (simp add: add.assoc)
  qed
qed

lemma not_digit_delim:
  "delim r \<Longrightarrow> (case r of [] \<Rightarrow> True | c # cs \<Rightarrow> \<not> is_digit c)"
  by (auto simp: delim_def is_digit_def split: list.splits)

lemma parse_frac_none: "delim r \<Longrightarrow> parse_frac r = Some ([], r)"
  by (auto simp: parse_frac_def delim_def split: list.splits)

lemma parse_exp_none: "delim r \<Longrightarrow> parse_exp r = Some (0, r)"
  by (auto simp: parse_exp_def delim_def split: list.splits)

lemma not_digit_chars:
  "\<not> is_digit 0x2E" "\<not> is_digit 0x65" "\<not> is_digit 0x2D" "\<not> is_digit 0x2B"
  by (simp_all add: is_digit_def)

lemma parse_int_part_digits:
  assumes "list_all is_digit ds" "ds \<noteq> []" "hd ds \<noteq> 0x30"
    and "case r of [] \<Rightarrow> True | c # cs \<Rightarrow> \<not> is_digit c"
  shows "parse_int_part (ds @ r) = Some (ds, r)"
proof -
  from assms(2) obtain c cs where ds: "ds = c # cs" by (cases ds) auto
  with assms(1) have c: "is_digit c" and cs: "list_all is_digit cs" by simp_all
  from scan_digits [OF cs assms(4)] ds assms(3) c show ?thesis
    by (simp add: parse_int_part_def)
qed

lemma parse_frac_digits:
  assumes "list_all is_digit fs" "fs \<noteq> []"
    and "case r of [] \<Rightarrow> True | c # cs \<Rightarrow> \<not> is_digit c"
  shows "parse_frac (0x2E # fs @ r) = Some (fs, r)"
  using scan_digits [OF assms(1,3)] assms(2) by (simp add: parse_frac_def)

lemma parse_exp_digits:
  assumes "delim r"
  shows "parse_exp (0x65 # (if neg then [0x2D] else [0x2B]) @ digits_in 10 n @ r) =
           Some ((if neg then - 1 else 1) * int n, r)"
proof -
  let ?ds = "digits_in 10 n"
  note d = digits_in_10 [of n]
  have sc: "takeWhile is_digit (?ds @ r) = ?ds" "dropWhile is_digit (?ds @ r) = r"
    using scan_digits [OF _ not_digit_delim [OF assms], of ?ds] d by simp_all
  show ?thesis
    using d by (simp add: parse_exp_def parse_sign_def sc digits_in_nonempty10)
qed

lemma norm_dec_keep: "m \<noteq> 0 \<Longrightarrow> \<not> 10 dvd m \<Longrightarrow> norm_dec m e = (m, e)"
  by (simp add: norm_dec_normal mod_eq_0_iff_dvd)

lemma parse_frac_other:
  "c \<noteq> 0x2E \<Longrightarrow> parse_frac (c # cs) = Some ([], c # cs)"
  by (simp add: parse_frac_def)

lemma digits_val_single_zero: "digits_val [0x30] = 0"
  by (simp add: digits_val_def digit_val_def)

lemma zeros_digits: "list_all is_digit (replicate k (digit_char 0))"
  by (induction k) (simp_all add: dec_digit(1))

lemma pos_scan:
  assumes s: "0 < s" "\<not> 10 dvd s" and r: "delim rest" and sg: "sg = 1 \<or> sg = - 1"
  shows "\<exists>ip fp ex r1 r2.
           parse_int_part (Number_toString_pos s e @ rest) = Some (ip, r1) \<and>
           parse_frac r1 = Some (fp, r2) \<and> parse_exp r2 = Some (ex, rest) \<and>
           norm_dec (sg * int (digits_val (ip @ fp))) (ex - int (length fp)) = (sg * int s, e)"
proof -
  let ?ds = "digits_in 10 s"
  let ?k = "int (length ?ds)"
  let ?n = "?k + e"
  note d = digits_in_10 [of s]
  have dig: "list_all is_digit ?ds" and val: "digits_val ?ds = s" and lead: "hd ?ds \<noteq> 0x30"
    using d s(1) by simp_all
  have ne: "?ds \<noteq> []" by (rule digits_in_nonempty10)
  then have kpos: "0 < ?k" by simp
  have "\<not> 10 dvd int s" using s(2) by presburger
  then have nrm: "norm_dec (sg * int s) x = (sg * int s, x)" for x
    using s(1) sg by (intro norm_dec_keep) auto
  note nd = not_digit_delim [OF r]
  note pf0 = parse_frac_none [OF r] and pe0 = parse_exp_none [OF r]
  consider (A) "?k \<le> ?n" "?n \<le> 21"
    | (B) "\<not> ?k \<le> ?n" "0 < ?n" "?n \<le> 21"
    | (C) "\<not> ?k \<le> ?n" "\<not> 0 < ?n" "- 6 < ?n" "?n \<le> 0"
    | (D) "\<not> (?k \<le> ?n \<and> ?n \<le> 21)" "\<not> (0 < ?n \<and> ?n \<le> 21)" "\<not> (- 6 < ?n \<and> ?n \<le> 0)"
    using kpos by linarith
  then show ?thesis
  proof cases
    case A
    let ?z = "replicate (nat (?n - ?k)) (digit_char 0)"
    have t: "Number_toString_pos s e @ rest = (?ds @ ?z) @ rest"
      unfolding Number_toString_pos_def Let_def
      by (simp only: A if_False if_True simp_thms)
    have "list_all is_digit (?ds @ ?z)" using dig zeros_digits by simp
    moreover have "hd (?ds @ ?z) \<noteq> 0x30" using ne lead by simp
    ultimately have ip: "parse_int_part ((?ds @ ?z) @ rest) = Some (?ds @ ?z, rest)"
      using ne nd by (intro parse_int_part_digits) simp_all
    have v: "digits_val (?ds @ replicate (nat e) (digit_char 0)) = s * 10 ^ nat e"
      by (simp add: digits_val_append val digits_val_zeros)
    have "norm_dec (sg * int (s * 10 ^ nat e)) 0 = norm_dec (sg * int s) (0 + int (nat e))"
      using norm_dec_shift [of "sg * int s" "nat e" 0] by (simp add: mult.assoc)
    also have "\<dots> = (sg * int s, e)" using A by (simp add: nrm)
    finally have "norm_dec (sg * int (digits_val ((?ds @ ?z) @ []))) (0 - int (length ([]::jsstring)))
        = (sg * int s, e)" by (simp add: v)
    with ip pf0 pe0 show ?thesis unfolding t by blast
  next
    case B
    let ?i = "nat ?n"
    have lt: "?i < length ?ds" and ipos: "0 < ?i" using B by linarith+
    have t: "Number_toString_pos s e @ rest = take ?i ?ds @ (0x2E # drop ?i ?ds @ rest)"
      unfolding Number_toString_pos_def Let_def
      by (simp only: B if_False if_True simp_thms) (simp add: js_def)
    have "list_all is_digit (take ?i ?ds)" using dig by (auto simp: list_all_iff dest: in_set_takeD)
    moreover have "take ?i ?ds \<noteq> []" using ipos ne by simp
    moreover have "hd (take ?i ?ds) \<noteq> 0x30" using ipos lead by simp
    ultimately have ip: "parse_int_part (take ?i ?ds @ (0x2E # drop ?i ?ds @ rest)) =
        Some (take ?i ?ds, 0x2E # drop ?i ?ds @ rest)"
      by (intro parse_int_part_digits) (simp_all add: not_digit_chars)
    have "list_all is_digit (drop ?i ?ds)" using dig by (auto simp: list_all_iff dest: in_set_dropD)
    moreover have "drop ?i ?ds \<noteq> []" using lt by simp
    ultimately have fr: "parse_frac (0x2E # drop ?i ?ds @ rest) = Some (drop ?i ?ds, rest)"
      using nd by (intro parse_frac_digits)
    have "0 - int (length (drop ?i ?ds)) = e" using B lt by simp
    then have "norm_dec (sg * int (digits_val (take ?i ?ds @ drop ?i ?ds)))
        (0 - int (length (drop ?i ?ds))) = (sg * int s, e)"
      by (simp only: append_take_drop_id val nrm)
    with ip fr pe0 show ?thesis unfolding t by blast
  next
    case C
    let ?z = "replicate (nat (- ?n)) (digit_char 0)"
    have t: "Number_toString_pos s e @ rest = 0x30 # 0x2E # (?z @ ?ds) @ rest"
      unfolding Number_toString_pos_def Let_def
      by (simp only: C if_False if_True simp_thms) (simp add: js_def)
    have ip: "parse_int_part (0x30 # 0x2E # (?z @ ?ds) @ rest) = Some ([0x30], 0x2E # (?z @ ?ds) @ rest)"
      by (simp add: parse_int_part_def)
    have "list_all is_digit (?z @ ?ds)" using dig zeros_digits by simp
    then have fr: "parse_frac (0x2E # (?z @ ?ds) @ rest) = Some (?z @ ?ds, rest)"
      using nd ne by (intro parse_frac_digits) simp_all
    have v: "digits_val ([0x30] @ ?z @ ?ds) = s"
      by (simp only: digits_val_append digits_val_single_zero digits_val_zeros val mult_zero_left
          add_0)
    have "0 - int (length (?z @ ?ds)) = e" using C by simp
    then have "norm_dec (sg * int (digits_val ([0x30] @ ?z @ ?ds))) (0 - int (length (?z @ ?ds)))
        = (sg * int s, e)"
      by (simp only: v nrm)
    with ip fr pe0 show ?thesis unfolding t by blast
  next
    case D
    let ?x = "?n - 1"
    let ?ex = "0x65 # (if ?x < 0 then [0x2D] else [0x2B]) @ digits_in 10 (nat \<bar>?x\<bar>) @ rest"
    have pe: "parse_exp ?ex = Some (?x, rest)"
      using parse_exp_digits [OF r, of "?x < 0" "nat \<bar>?x\<bar>"] by simp
    show ?thesis
    proof (cases "?k = 1")
      case True
      have t: "Number_toString_pos s e @ rest = ?ds @ ?ex"
        unfolding Number_toString_pos_def Let_def
        by (simp only: D if_False) (simp add: True js_def)
      have ip: "parse_int_part (?ds @ ?ex) = Some (?ds, ?ex)"
        using dig ne lead by (intro parse_int_part_digits) (simp_all add: not_digit_chars)
      have fr: "parse_frac ?ex = Some ([], ?ex)" by (rule parse_frac_other) simp
      have "?x - int (length ([]::jsstring)) = e" using True by simp
      then have "norm_dec (sg * int (digits_val (?ds @ []))) (?x - int (length ([]::jsstring)))
          = (sg * int s, e)"
        by (simp only: append_Nil2 val nrm)
      with ip fr pe show ?thesis unfolding t by blast
    next
      case False
      then have k2: "1 < length ?ds" using kpos by linarith
      have t: "Number_toString_pos s e @ rest = take 1 ?ds @ (0x2E # drop 1 ?ds @ ?ex)"
        unfolding Number_toString_pos_def Let_def
        using False by (simp only: D if_False) (simp add: js_def)
      have "list_all is_digit (take 1 ?ds)" using dig by (auto simp: list_all_iff dest: in_set_takeD)
      moreover have "take 1 ?ds \<noteq> []" using ne by simp
      moreover have "hd (take 1 ?ds) \<noteq> 0x30" using lead by simp
      ultimately have ip: "parse_int_part (take 1 ?ds @ (0x2E # drop 1 ?ds @ ?ex)) =
          Some (take 1 ?ds, 0x2E # drop 1 ?ds @ ?ex)"
        by (intro parse_int_part_digits) (simp_all add: not_digit_chars)
      have "list_all is_digit (drop 1 ?ds)" using dig by (auto simp: list_all_iff dest: in_set_dropD)
      moreover have "drop 1 ?ds \<noteq> []" using k2 by simp
      ultimately have fr: "parse_frac (0x2E # drop 1 ?ds @ ?ex) = Some (drop 1 ?ds, ?ex)"
        by (intro parse_frac_digits) (simp_all add: not_digit_chars)
      have "?x - int (length (drop 1 ?ds)) = e" using k2 by simp
      then have "norm_dec (sg * int (digits_val (take 1 ?ds @ drop 1 ?ds)))
          (?x - int (length (drop 1 ?ds))) = (sg * int s, e)"
        by (simp only: append_take_drop_id val nrm)
      with ip fr pe show ?thesis unfolding t by blast
    qed
  qed
qed

lemma parse_int_part_Some_digit:
  "parse_int_part t = Some (ip, r) \<Longrightarrow> \<exists>c cs. t = c # cs \<and> is_digit c"
  by (auto simp: parse_int_part_def is_digit_def split: list.splits if_splits)

lemma parse_int_part_delim: "delim r \<Longrightarrow> parse_int_part r = None"
  by (auto simp: parse_int_part_def delim_def is_digit_def split: list.splits)

lemma pos_first_digit:
  assumes "0 < s" "\<not> 10 dvd s"
  shows "\<exists>c cs. Number_toString_pos s e = c # cs \<and> is_digit c"
proof -
  have d: "delim []" by (simp add: delim_def)
  from pos_scan [OF assms d, of 1 e] obtain ip r1 where
    p: "parse_int_part (Number_toString_pos s e @ []) = Some (ip, r1)" by auto
  then show ?thesis using parse_int_part_Some_digit [of "Number_toString_pos s e" ip r1] by simp
qed

lemma parse_number_pos:
  assumes s: "0 < s" "\<not> 10 dvd s" and r: "delim rest"
  shows "parse_number (Number_toString_pos s e @ rest) = Some (Fin (int s) e, rest)"
    and "parse_number (0x2D # Number_toString_pos s e @ rest) = Some (Fin (- int s) e, rest)"
proof -
  from pos_first_digit [OF s, of e] obtain c cs where
    t: "Number_toString_pos s e = c # cs" and c: "is_digit c" by blast
  then have nm: "c \<noteq> 0x2D" by (auto simp: is_digit_def)
  from pos_scan [OF s r, of 1 e] obtain ip fp ex r1 r2 where
    "parse_int_part (Number_toString_pos s e @ rest) = Some (ip, r1)"
    "parse_frac r1 = Some (fp, r2)" "parse_exp r2 = Some (ex, rest)"
    "norm_dec (1 * int (digits_val (ip @ fp))) (ex - int (length fp)) = (1 * int s, e)"
    by blast
  then show "parse_number (Number_toString_pos s e @ rest) = Some (Fin (int s) e, rest)"
    using nm by (simp add: parse_number_def t)
  from pos_scan [OF s r, of "- 1" e] obtain ip fp ex r1 r2 where
    "parse_int_part (Number_toString_pos s e @ rest) = Some (ip, r1)"
    "parse_frac r1 = Some (fp, r2)" "parse_exp r2 = Some (ex, rest)"
    "norm_dec (- 1 * int (digits_val (ip @ fp))) (ex - int (length fp)) = (- 1 * int s, e)"
    by blast
  then show "parse_number (0x2D # Number_toString_pos s e @ rest) = Some (Fin (- int s) e, rest)"
    by (simp add: parse_number_def)
qed

lemma parse_number_zero:
  assumes "delim rest"
  shows "parse_number (0x30 # rest) = Some (Fin 0 0, rest)"
  using parse_frac_none [OF assms] parse_exp_none [OF assms]
  by (simp add: parse_number_def parse_int_part_def digits_val_single_zero norm_dec_zero)

lemma norm_dec_not_dvd:
  "norm_dec m e = (m', e') \<Longrightarrow> m' \<noteq> 0 \<Longrightarrow> \<not> 10 dvd m'"
  using norm_dec_result [of m e m' e'] by (auto simp: mod_eq_0_iff_dvd)

lemma parse_number_toString:
  assumes r: "delim rest" and n: "norm_dec m e = (m', e')"
  shows "parse_number (Number_toString (Fin m e) @ rest) = Some (Fin m' e', rest) \<and>
         (\<exists>c cs. Number_toString (Fin m e) = c # cs \<and> (c = 0x2D \<or> is_digit c))"
proof -
  consider (zero) "m' = 0" | (neg) "m' < 0" | (pos) "0 < m'" by linarith
  then show ?thesis
  proof cases
    case zero
    with norm_dec_result [OF n] have "e' = 0" by simp
    with zero n parse_number_zero [OF r] show ?thesis
      by (simp add: js_def is_digit_def)
  next
    case neg
    let ?s = "nat (- m')"
    have s: "0 < ?s" "\<not> 10 dvd ?s"
      using neg norm_dec_not_dvd [OF n] by (simp_all add: int_dvd_int_iff [symmetric] del: int_dvd_int_iff)
    from parse_number_pos(2) [OF s r, of e'] neg n show ?thesis
      by (simp add: js_def)
  next
    case pos
    let ?s = "nat m'"
    have s: "0 < ?s" "\<not> 10 dvd ?s"
      using pos norm_dec_not_dvd [OF n] by (simp_all add: int_dvd_int_iff [symmetric] del: int_dvd_int_iff)
    from parse_number_pos(1) [OF s r, of e'] pos_first_digit [OF s, of e'] pos n show ?thesis
      by auto
  qed
qed

declare Number_toString.simps [simp del]

lemma not_ws_chars:
  "\<not> is_ws 0x22" "\<not> is_ws 0x2C" "\<not> is_ws 0x3A" "\<not> is_ws 0x5B" "\<not> is_ws 0x5D"
  "\<not> is_ws 0x7B" "\<not> is_ws 0x7D" "\<not> is_ws 0x2D"
  by (simp_all add: is_ws_def)

lemma skip_ws_Cons: "\<not> is_ws c \<Longrightarrow> skip_ws (c # cs) = c # cs"
  by (simp add: skip_ws_def)

lemma skip_ws_Nil: "skip_ws [] = []"
  by (simp add: skip_ws_def)

lemma starter_facts: "starter c \<Longrightarrow> \<not> is_ws c \<and> c \<noteq> 0x5D \<and> c \<noteq> 0x7D"
  by (auto simp: starter_def is_ws_def is_digit_def)

lemma Number_toString_start:
  "\<exists>c cs. Number_toString (Fin m e) = c # cs \<and> starter c"
proof -
  obtain m' e' where "norm_dec m e = (m', e')" by (cases "norm_dec m e")
  from parse_number_toString [OF _ this, of "[]"] show ?thesis
    by (auto simp: delim_def starter_def)
qed

lemma serialize_start:
  "serialize v = Some t \<Longrightarrow> \<exists>c cs. t = c # cs \<and> starter c"
proof (cases v)
  case (JNum n)
  assume "serialize v = Some t"
  with JNum Number_toString_start show ?thesis
    by (cases n) (auto simp: js_def starter_def)
qed (auto simp: js_def starter_def QuoteJSONString_def)

lemma elem_text_start: "\<exists>c cs. elem_text x = c # cs \<and> starter c"
proof (cases "serialize x")
  case None
  then show ?thesis by (simp add: elem_text_def js_def starter_def)
next
  case (Some t)
  with serialize_start [OF Some] show ?thesis by (simp add: elem_text_def)
qed

lemma parse_value_literals:
  "parse_value (js ''null'' @ rest) = Some (JNull, rest)"
  "parse_value (js ''true'' @ rest) = Some (JBool True, rest)"
  "parse_value (js ''false'' @ rest) = Some (JBool False, rest)"
  by (simp_all add: parse_value.simps js_def)

lemma parse_value_string:
  "parse_value (QuoteJSONString t @ rest) = Some (JStr t, rest)"
  by (simp add: parse_value.simps QuoteJSONString_def parse_chars_quote_units)

lemma parse_value_number:
  assumes "delim rest" "norm_dec m e = (m', e')"
  shows "parse_value (Number_toString (Fin m e) @ rest) = Some (JNum (Fin m' e'), rest)"
proof -
  from parse_number_toString [OF assms] obtain c cs where
    p: "parse_number (Number_toString (Fin m e) @ rest) = Some (Fin m' e', rest)"
    and t: "Number_toString (Fin m e) = c # cs" and c: "c = 0x2D \<or> is_digit c"
    by blast
  from c have n: "c \<noteq> 0x7B" "c \<noteq> 0x5B" "c \<noteq> 0x22" "c \<noteq> 0x74" "c \<noteq> 0x66" "c \<noteq> 0x6E"
    by (auto simp: is_digit_def)
  have "parse_value ((c # cs) @ rest) =
      (case parse_number ((c # cs) @ rest) of None \<Rightarrow> None | Some (n, r) \<Rightarrow> Some (JNum n, r))"
    using n c by (subst parse_value.simps) (auto simp: js_def)
  with p show ?thesis by (simp add: t)
qed

lemma delim_chars: "delim (0x2C # r)" "delim (0x5D # r)" "delim (0x7D # r)" "delim []"
  by (simp_all add: delim_def)

lemma skip_ws_starter:
  "t = c # cs \<Longrightarrow> starter c \<Longrightarrow> skip_ws (t @ r) = t @ r"
  using starter_facts [of c] by (simp add: skip_ws_def)

lemma parse_elements_join:
  assumes ne: "xs \<noteq> []"
    and ih: "\<And>x r. x \<in> set xs \<Longrightarrow> delim r \<Longrightarrow>
               parse_value (elem_text x @ r) = Some (json_norm x, r)"
  shows "parse_elements (join (js '','') (map elem_text xs) @ 0x5D # rest) =
           Some (map json_norm xs, rest)"
  using ne ih
proof (induction xs rule: list_nonempty_induct)
  case (single x)
  have "parse_value (elem_text x @ 0x5D # rest) = Some (json_norm x, 0x5D # rest)"
    using single by (simp add: delim_chars)
  then show ?case
    by (subst parse_elements.simps) (simp add: skip_ws_Cons not_ws_chars)
next
  case (cons x xs)
  from cons.hyps obtain y ys where xs: "xs = y # ys" by (cases xs) auto
  let ?tail = "join (js '','') (map elem_text xs) @ 0x5D # rest"
  have t: "join (js '','') (map elem_text (x # xs)) @ 0x5D # rest =
      elem_text x @ 0x2C # ?tail"
    by (simp add: xs js_def)
  have pv: "parse_value (elem_text x @ 0x2C # ?tail) = Some (json_norm x, 0x2C # ?tail)"
    using cons.prems by (simp add: delim_chars)
  from elem_text_start [of y] obtain c cs where "elem_text y = c # cs" "starter c" by blast
  then have sk: "skip_ws ?tail = ?tail"
    using starter_facts [of c] by (cases ys) (simp_all add: xs skip_ws_def)
  have rec: "parse_elements ?tail = Some (map json_norm xs, rest)"
    using cons.IH cons.prems by simp
  show ?case
    unfolding t
    by (subst parse_elements.simps) (simp add: pv skip_ws_Cons not_ws_chars sk rec)
qed

lemma parse_members_join:
  assumes ne: "kvs \<noteq> []"
    and ih: "\<And>k v r. (k, v) \<in> set kvs \<Longrightarrow> delim r \<Longrightarrow>
               parse_value (elem_text v @ r) = Some (json_norm v, r)"
  shows "parse_members (join (js '','') (map member_text kvs) @ 0x7D # rest) =
           Some (map (\<lambda>(k, v). (k, json_norm v)) kvs, rest)"
  using ne ih
proof (induction kvs rule: list_nonempty_induct)
  case (single kv)
  obtain k v where kv: "kv = (k, v)" by (cases kv)
  from elem_text_start [of v] obtain c cs where st: "elem_text v = c # cs" "starter c" by blast
  have pv: "parse_value (elem_text v @ 0x7D # rest) = Some (json_norm v, 0x7D # rest)"
    by (rule single [of k]) (simp_all add: kv delim_chars)
  have sk: "skip_ws (elem_text v @ 0x7D # rest) = elem_text v @ 0x7D # rest"
    using st by (rule skip_ws_starter)
  show ?case
    by (subst parse_members.simps)
      (simp add: kv member_text_def QuoteJSONString_def parse_chars_quote_units skip_ws_Cons
        not_ws_chars sk pv)
next
  case (cons kv kvs)
  obtain k v where kv: "kv = (k, v)" by (cases kv)
  from cons.hyps obtain kv' kvs' where kvs: "kvs = kv' # kvs'" by (cases kvs) auto
  let ?tail = "join (js '','') (map member_text kvs) @ 0x7D # rest"
  have t: "join (js '','') (map member_text (kv # kvs)) @ 0x7D # rest =
      0x22 # quote_units k @ 0x22 # 0x3A # elem_text v @ 0x2C # ?tail"
    by (simp add: kvs kv js_def member_text_def QuoteJSONString_def)
  from elem_text_start [of v] obtain c cs where st: "elem_text v = c # cs" "starter c" by blast
  have pv: "parse_value (elem_text v @ 0x2C # ?tail) = Some (json_norm v, 0x2C # ?tail)"
    by (rule cons.prems [of k]) (simp_all add: kv delim_chars)
  have sk: "skip_ws (elem_text v @ 0x2C # ?tail) = elem_text v @ 0x2C # ?tail"
    using st by (rule skip_ws_starter)
  have sk2: "skip_ws ?tail = ?tail"
    by (cases kvs') (simp_all add: kvs member_text_def QuoteJSONString_def skip_ws_Cons not_ws_chars)
  have rec: "parse_members ?tail = Some (map (\<lambda>(k, v). (k, json_norm v)) kvs, rest)"
  proof (rule cons.IH)
    fix k' v' r
    assume "(k', v') \<in> set kvs" "delim r"
    then show "parse_value (elem_text v' @ r) = Some (json_norm v', r)"
      using cons.prems [of k' v' r] by simp
  qed
  show ?case
    unfolding t
    by (subst parse_members.simps)
      (simp add: kv parse_chars_quote_units skip_ws_Cons not_ws_chars sk pv sk2 rec)
qed

lemma serialize_None: "serialize x = None \<Longrightarrow> json_norm x = JNull"
  by (cases x) simp_all

lemma elem_roundtrip:
  assumes "\<And>t. serialize x = Some t \<Longrightarrow> parse_value (t @ r) = Some (json_norm x, r)"
  shows "parse_value (elem_text x @ r) = Some (json_norm x, r)"
proof (cases "serialize x")
  case None
  then show ?thesis by (simp add: elem_text_def serialize_None parse_value_literals)
next
  case (Some t)
  with assms show ?thesis by (simp add: elem_text_def)
qed

lemma members_as_filter:
  "concat (map (\<lambda>(k, v). case serialize v of None \<Rightarrow> []
                          | Some t \<Rightarrow> [QuoteJSONString k @ js '':'' @ t]) kvs) =
   map member_text (filter (\<lambda>(k, v). serialize v \<noteq> None) kvs)"
  by (induction kvs) (auto simp: member_text_def elem_text_def js_def)

lemma elements_as_map:
  "map (\<lambda>x. case serialize x of None \<Rightarrow> js ''null'' | Some t \<Rightarrow> t) xs = map elem_text xs"
  by (simp add: elem_text_def)

lemma parse_value_array:
  "starter c \<Longrightarrow> parse_value (0x5B # c # cs) =
     (case parse_elements (c # cs) of None \<Rightarrow> None | Some (vs, r) \<Rightarrow> Some (JArr vs, r))"
  using starter_facts [of c]
  by (subst parse_value.simps) (simp add: skip_ws_def)

lemma parse_value_object:
  "parse_value (0x7B # 0x22 # cs) =
     (case parse_members (0x22 # cs) of None \<Rightarrow> None
      | Some (ps, r) \<Rightarrow> Some (JObj (object_of ps), r))"
  by (subst parse_value.simps) (simp add: skip_ws_Cons not_ws_chars)

lemma parse_serialize:
  "serialize v = Some t \<Longrightarrow> delim rest \<Longrightarrow> parse_value (t @ rest) = Some (json_norm v, rest)"
proof (induction v arbitrary: t rest rule: serialize.induct)
  case 1
  then show ?case by simp
next
  case (2 f)
  then show ?case by simp
next
  case 3
  then show ?case by (auto simp: parse_value_literals)
next
  case (4 b)
  then show ?case by (auto simp: parse_value_literals)
next
  case (5 n)
  show ?case
  proof (cases n)
    case (Fin m e)
    obtain m' e' where nd: "norm_dec m e = (m', e')" by (cases "norm_dec m e")
    from 5 Fin have "t = Number_toString (Fin m e)" by simp
    with parse_value_number [OF 5(2) nd] Fin nd show ?thesis by simp
  qed (use 5 in \<open>auto simp: parse_value_literals\<close>)
next
  case (6 s)
  then show ?case by (auto simp: parse_value_string)
next
  case (7 xs)
  have t: "t = 0x5B # join (js '','') (map elem_text xs) @ [0x5D]"
    using 7(2) by (simp add: elements_as_map js_def)
  show ?case
  proof (cases xs)
    case Nil
    then show ?thesis
      unfolding t by (subst parse_value.simps) (simp add: skip_ws_Cons not_ws_chars)
  next
    case (Cons y ys)
    then have ne: "xs \<noteq> []" by simp
    have ih: "parse_value (elem_text x @ r) = Some (json_norm x, r)"
      if "x \<in> set xs" "delim r" for x r
      using 7(1) [OF that(1) _ that(2)] by (intro elem_roundtrip) simp
    have pe: "parse_elements (join (js '','') (map elem_text xs) @ 0x5D # rest) =
        Some (map json_norm xs, rest)"
      by (rule parse_elements_join [OF ne ih])
    from elem_text_start [of y] obtain c cs where st: "elem_text y = c # cs" "starter c" by blast
    let ?body = "join (js '','') (map elem_text xs) @ 0x5D # rest"
    have "\<exists>b'. ?body = c # b'"
      using st(1) Cons by (cases ys) simp_all
    then obtain b' where b: "?body = c # b'" ..
    have "parse_value (0x5B # ?body) =
        (case parse_elements ?body of None \<Rightarrow> None | Some (vs, r) \<Rightarrow> Some (JArr vs, r))"
      using parse_value_array [OF st(2), of b'] by (simp only: b [symmetric])
    then show ?thesis unfolding t using pe by simp
  qed
next
  case (8 kvs)
  let ?ms = "filter (\<lambda>(k, v). serialize v \<noteq> None) kvs"
  have t: "t = 0x7B # join (js '','') (map member_text ?ms) @ [0x7D]"
    using 8(2) by (simp add: members_as_filter js_def)
  show ?case
  proof (cases ?ms)
    case Nil
    then show ?thesis
      unfolding t by (subst parse_value.simps) (simp add: skip_ws_Cons not_ws_chars object_of_def)
  next
    case (Cons kv ms)
    then have ne: "?ms \<noteq> []" by simp
    have ih: "parse_value (elem_text v @ r) = Some (json_norm v, r)"
      if "(k, v) \<in> set ?ms" "delim r" for k v r
    proof -
      from that(1) have "(k, v) \<in> set kvs" by simp
      from 8(1) [OF this refl _ that(2)] show ?thesis by (intro elem_roundtrip) simp
    qed
    have pm: "parse_members (join (js '','') (map member_text ?ms) @ 0x7D # rest) =
        Some (map (\<lambda>(k, v). (k, json_norm v)) ?ms, rest)"
      by (rule parse_members_join [OF ne ih])
    let ?body = "join (js '','') (map member_text ?ms) @ 0x7D # rest"
    have "\<exists>b'. ?body = 0x22 # b'"
      unfolding Cons by (cases ms) (simp_all add: member_text_def QuoteJSONString_def)
    then obtain b' where b: "?body = 0x22 # b'" ..
    have "parse_value (0x7B # ?body) =
        (case parse_members ?body of None \<Rightarrow> None | Some (ps, r) \<Rightarrow> Some (JObj (object_of ps), r))"
      using parse_value_object [of b'] by (simp only: b [symmetric])
    then show ?thesis unfolding t using pm by simp
  qed
qed

lemma serialize_object_start:
  "serialize (JObj kvs) = Some t \<Longrightarrow> \<exists>cs. t = 0x7B # cs"
  by (auto simp: js_def)

lemma JSON_roundtrip:
  assumes "serialize (JObj kvs) = Some t"
  shows "JSON_parse t = Inr (json_norm (JObj kvs))"
proof -
  from serialize_object_start [OF assms] obtain cs where t: "t = 0x7B # cs" ..
  have "skip_ws t = t" by (simp add: t skip_ws_Cons not_ws_chars)
  moreover have "parse_value (t @ []) = Some (json_norm (JObj kvs), [])"
    using assms by (rule parse_serialize) (rule delim_chars)
  ultimately show ?thesis by (simp add: JSON_parse_def skip_ws_Nil)
qed

lemma serialize_snapshot: "serialize (snapshot s) = Some (JSON_stringify (snapshot s))"
  by (simp add: snapshot_def JSON_stringify_def)

lemma json_norm_snapshot:
  assumes "serialize (projects s) \<noteq> None" "serialize (entries s) \<noteq> None"
  shows "json_norm (snapshot s) =
     JObj [(js ''projects'', json_norm (projects s)),
           (js ''entries'', json_norm (entries s)),
           (js ''lastSaved'', JStr (now_iso s))]"
  using assms by (simp add: snapshot_def object_of_def js_def)

lemma cleanupStorage_console:
  "cleanupStorage s = Inr s' \<Longrightarrow> console_errors s' = console_errors s"
  by (cases "localStorage s") (auto simp: cleanupStorage_denied cleanupStorage_granted split: if_splits)

lemma ls_setItem_Inl: "ls_setItem k v s = Inl (e, s1) \<Longrightarrow> s1 = s"
  by (auto simp: ls_setItem_def split: storage.splits if_splits)

lemma ls_setItem_Inr:
  "ls_setItem k v s = Inr s1 \<Longrightarrow>
     console_errors s1 = console_errors s \<and> stored_items s1 = put_prop k v (stored_items s) \<and>
     localStorage s1 \<noteq> Denied"
  by (auto simp: ls_setItem_def stored_items_def split: storage.splits if_splits)

lemma saveToLocalStorage_clean:
  assumes "saveToLocalStorage data s = Inr s'" "console_errors s' = console_errors s"
  shows "\<exists>s1. ls_setItem key_data (JSON_stringify data) s = Inr s1 \<and>
              ls_setItem key_backup (JSON_stringify data) s1 = Inr s'"
proof (cases "ls_setItem key_data (JSON_stringify data) s")
  case (Inl a)
  obtain e s1 where a: "a = (e, s1)" by (cases a)
  have "s1 = s" using Inl a by (auto dest: ls_setItem_Inl)
  with Inl a assms(1) have "cleanupStorage (console_error (SaveError e) s) = Inr s'"
    by (simp add: saveToLocalStorage_def)
  from cleanupStorage_console [OF this] assms(2) show ?thesis
    by (simp add: console_error_def)
next
  case (Inr s1)
  note first = this
  show ?thesis
  proof (cases "ls_setItem key_backup (JSON_stringify data) s1")
    case (Inl a)
    obtain e s2 where a: "a = (e, s2)" by (cases a)
    have "s2 = s1" using Inl a by (auto dest: ls_setItem_Inl)
    with Inl a first assms(1) have "cleanupStorage (console_error (SaveError e) s1) = Inr s'"
      by (simp add: saveToLocalStorage_def)
    from cleanupStorage_console [OF this] assms(2) ls_setItem_Inr [OF first] show ?thesis
      by (simp add: console_error_def)
  next
    case (Inr s2)
    with first assms(1) show ?thesis by (simp add: saveToLocalStorage_def)
  qed
qed

lemma saveData_Inr:
  "saveData s = Inr s' \<Longrightarrow>
     \<exists>s1. saveToLocalStorage (snapshot s) s = Inr s1 \<and> localStorage s' = localStorage s1 \<and>
          console_errors s' = console_errors s1"
  by (auto simp: saveData_def setTimeout_def clearTimeout_def split: sum.splits)

lemma saveData_with_room:
  assumes g: "localStorage s = Granted st"
    and r1: "usage (put_prop key_data (JSON_stringify (snapshot s)) (items st)) \<le> quota st"
    and r2: "usage (put_prop key_backup (JSON_stringify (snapshot s))
               (put_prop key_data (JSON_stringify (snapshot s)) (items st))) \<le> quota st"
  shows "saveData s = Inr (final (saveData s)) \<and>
         console_errors (final (saveData s)) = console_errors s"
  using g r1 r2
  by (simp add: saveData_def saveToLocalStorage_def ls_setItem_def setTimeout_def clearTimeout_def
      final_def)

lemma booked_snapshot:
  "snapshot booked =
     JObj [(js ''projects'', JArr default_projects),
           (js ''entries'', JArr [booked_entry]),
           (js ''lastSaved'', JStr (js ''2026-10-26T07:33:20.000Z''))]"
  by (simp add: snapshot_def booked_def seeded_def loadInitialData_def fresh_def)

lemma booked_text_length: "length (JSON_stringify (snapshot booked)) = 376"
  unfolding booked_snapshot by code_simp

lemma booked_plain: "json_norm (snapshot booked) = snapshot booked"
  unfolding booked_snapshot by code_simp

lemma booked_storage: "localStorage booked = Granted \<lparr>items = [], quota = 5242880\<rparr>"
  by (simp add: booked_def seeded_def loadInitialData_def fresh_def)

lemma booked_saves:
  "saveData booked = Inr (final (saveData booked)) \<and>
   console_errors (final (saveData booked)) = console_errors booked"
  by (rule saveData_with_room [OF booked_storage])
    (simp_all add: usage_def key_lengths booked_text_length keys_distinct)

declare norm_dec.simps [simp] Number_toString.simps [simp]

section \<open>The claims\<close>

text \<open>
  Claim C1. Redundant write: after a successful \<open>saveData\<close>, that is one that returns
  without having reported a write error on the console, the primary key
  \<open>workTimesheet_data\<close> and the backup key \<open>workTimesheet_backup\<close> hold the same text, the
  serialized snapshot. \<open>JSON.parse\<close> accepts this text and yields the snapshot as JSON
  represents it: an object with \<open>projects\<close>, \<open>entries\<close> and \<open>lastSaved\<close> whose projects and
  entries are the JSON images of those in memory (whenever both can be serialized at
  all). The store after the call is the store before it with the primary key written
  first and the backup key written second.
\<close>

theorem redundant_write:
  assumes "saveData s = Inr s'" and "console_errors s' = console_errors s"
  shows "stored s' key_data = Some (JSON_stringify (snapshot s)) \<and>
         stored s' key_backup = Some (JSON_stringify (snapshot s)) \<and>
         JSON_parse (JSON_stringify (snapshot s)) = Inr (json_norm (snapshot s)) \<and>
         stored_items s' =
           put_prop key_backup (JSON_stringify (snapshot s))
             (put_prop key_data (JSON_stringify (snapshot s)) (stored_items s)) \<and>
         (serialize (projects s) \<noteq> None \<and> serialize (entries s) \<noteq> None \<longrightarrow>
            json_norm (snapshot s) =
              JObj [(js ''projects'', json_norm (projects s)),
                    (js ''entries'', json_norm (entries s)),
                    (js ''lastSaved'', JStr (now_iso s))])"
proof -
  let ?v = "JSON_stringify (snapshot s)"
  from saveData_Inr [OF assms(1)] obtain s2
    where s2: "saveToLocalStorage (snapshot s) s = Inr s2"
      and ls: "localStorage s' = localStorage s2" and ce: "console_errors s' = console_errors s2"
    by blast
  from saveToLocalStorage_clean [OF s2] ce assms(2) obtain s1
    where w1: "ls_setItem key_data ?v s = Inr s1" and w2: "ls_setItem key_backup ?v s1 = Inr s2"
    by auto
  have items: "stored_items s' = put_prop key_backup ?v (put_prop key_data ?v (stored_items s))"
    using ls_setItem_Inr [OF w1] ls_setItem_Inr [OF w2] ls by (simp add: stored_items_def)
  have "stored s' key_data = Some ?v" "stored s' key_backup = Some ?v"
    by (simp_all add: stored_def items map_of_put_prop keys_distinct)
  moreover have "JSON_parse ?v = Inr (json_norm (snapshot s))"
    using serialize_snapshot [of s] unfolding snapshot_def by (rule JSON_roundtrip)
  ultimately show ?thesis
    using items json_norm_snapshot [of s] by blast
qed

theorem redundant_write_witness:
  "saveData booked = Inr (final (saveData booked)) \<and>
   console_errors (final (saveData booked)) = console_errors booked \<and>
   serialize (projects booked) \<noteq> None \<and> serialize (entries booked) \<noteq> None \<and>
   stored (final (saveData booked)) key_data = Some (JSON_stringify (snapshot booked)) \<and>
   stored (final (saveData booked)) key_backup = Some (JSON_stringify (snapshot booked)) \<and>
   JSON_parse (JSON_stringify (snapshot booked)) = Inr (snapshot booked) \<and>
   map fst (stored_items (final (saveData booked))) = [key_data, key_backup]"
proof -
  note w = redundant_write [of booked "final (saveData booked)",
      OF booked_saves [THEN conjunct1] booked_saves [THEN conjunct2]]
  have "stored_items booked = []"
    by (simp add: stored_items_def booked_storage)
  with w have "map fst (stored_items (final (saveData booked))) = [key_data, key_backup]"
    by (simp add: keys_distinct)
  moreover have "serialize (projects booked) \<noteq> None" "serialize (entries booked) \<noteq> None"
    by (simp_all add: booked_def seeded_def loadInitialData_def)
  moreover have "JSON_parse (JSON_stringify (snapshot booked)) = Inr (snapshot booked)"
    using w by (simp only: booked_plain)
  ultimately show ?thesis
    using w booked_saves by blast
qed

text \<open>
  Claim C4. Retry and backoff: when the first two attempts of one \<open>saveWithRetry\<close> call
  throw and the third returns, exactly two retries were scheduled before the third
  attempt, after 1000 ms and after 2000 ms (1000 ms times the retry counter), and the
  successful attempt leaves the retry counter at 0. The only other timer set is the
  500 ms deferred step of the successful save. The call is followed in isolation: no
  retry of an earlier call is pending when it starts.
\<close>

theorem retry_backoff:
  assumes fresh: "pending_retry s = None"
    and trace: "fst (saveWithRetry_run [ev1, ev2] s) = [True, True, False]"
  shows "retryCount (snd (saveWithRetry_run [ev1, ev2] s)) = 0 \<and>
         scheduled (snd (saveWithRetry_run [ev1, ev2] s)) =
           scheduled s @ [(1000, RetrySave), (2000, RetrySave), (500, DeferredSave)] \<and>
         pending_retry (snd (saveWithRetry_run [ev1, ev2] s)) = None"
proof -
  let ?a1 = "s\<lparr>retryCount := 0\<rparr>"
  let ?a2 = "retry_from ev1 ?a1"
  let ?a3 = "retry_from ev2 ?a2"
  have run: "saveWithRetry_run [ev1, ev2] s =
      (attempt_throws ?a1 # fst (run_retries [ev1, ev2] (attemptSave ?a1)),
       snd (run_retries [ev1, ev2] (attemptSave ?a1)))"
    by (simp add: saveWithRetry_run_def saveWithRetry_def split: prod.splits)
  have p1: "pending_retry ?a1 = None" using fresh by (simp add: pending_retry_def)
  have d1: "localStorage ?a1 = Denied"
    using trace by (simp add: run attempt_throws_iff)
  have r1: "retryCount ?a1 < maxRetries ?a1"
  proof (rule ccontr)
    assume "\<not> ?thesis"
    then have "run_retries [ev1, ev2] (attemptSave ?a1) = ([], attemptSave ?a1)"
      using p1 by (intro last_attempt_step) auto
    with trace show False by (simp add: run)
  qed
  note step1 = failed_attempt_step [OF p1 d1 r1, of ev1 "[ev2]"]
  have p2: "pending_retry ?a2 = None" using p1 by (rule pending_retry_retry_from)
  have d2: "localStorage ?a2 = Denied"
    using trace by (simp add: run step1 attempt_throws_iff)
  have r2: "retryCount ?a2 < maxRetries ?a2"
  proof (rule ccontr)
    assume "\<not> ?thesis"
    then have "run_retries [ev2] (attemptSave ?a2) = ([], attemptSave ?a2)"
      using p2 by (intro last_attempt_step) auto
    with trace show False by (simp add: run step1)
  qed
  note step2 = failed_attempt_step [OF p2 d2 r2, of ev2 "[]"]
  have p3: "pending_retry ?a3 = None" using p2 by (rule pending_retry_retry_from)
  have "\<not> attempt_throws ?a3"
    using trace by (simp add: run step1 step2)
  then obtain st where g3: "localStorage ?a3 = Granted st"
    by (cases "localStorage ?a3") (auto simp: attempt_throws_iff)
  have fin: "snd (saveWithRetry_run [ev1, ev2] s) = attemptSave ?a3"
    by (simp add: run step1 step2 run_retries.simps(1))
  from attemptSave_granted [OF g3] obtain L E where
    res: "attemptSave ?a3 =
           ?a3\<lparr>localStorage := L, console_errors := E,
             timers := filter (\<lambda>t. Some (fst t) \<noteq> saveTimeout ?a3) (timers ?a3)
                         @ [(next_timer ?a3, 500, DeferredSave)],
             scheduled := scheduled ?a3 @ [(500, DeferredSave)],
             next_timer := Suc (next_timer ?a3),
             saveTimeout := Some (next_timer ?a3),
             retryCount := 0\<rparr>"
    by blast
  have "pending_retry (attemptSave ?a3) = None"
    using p3 by (subst res) (simp add: pending_retry_def find_append_None find_filter_None)
  moreover have "retryCount (attemptSave ?a3) = 0" by (subst res) simp
  moreover have "scheduled (attemptSave ?a3) =
           scheduled s @ [(1000, RetrySave), (2000, RetrySave), (500, DeferredSave)]"
    by (subst res) (simp add: retry_from_def)
  ultimately show ?thesis by (simp add: fin)
qed

theorem retry_backoff_witness:
  "pending_retry blocked = None \<and>
   fst (saveWithRetry_run [\<lambda>st. st, \<lambda>st. Granted \<lparr>items = [], quota = 5242880\<rparr>] blocked) =
     [True, True, False] \<and>
   retryCount (snd (saveWithRetry_run [\<lambda>st. st, \<lambda>st. Granted \<lparr>items = [], quota = 5242880\<rparr>]
                      blocked)) = 0 \<and>
   scheduled (snd (saveWithRetry_run [\<lambda>st. st, \<lambda>st. Granted \<lparr>items = [], quota = 5242880\<rparr>]
                      blocked)) =
     [(1000, RetrySave), (2000, RetrySave), (500, DeferredSave)]"
proof -
  let ?g = "\<lambda>st::storage. Granted \<lparr>items = [], quota = 5242880\<rparr>"
  let ?evs = "[\<lambda>st. st, ?g]"
  let ?a1 = "blocked\<lparr>retryCount := 0\<rparr>"
  have a: "localStorage (retry_from ev x) = ev Denied"
          "maxRetries (retry_from ev x) = maxRetries x"
          "retryCount (retry_from ev x) = Suc (retryCount x)" for x ev
    by (simp_all add: retry_from_def)
  have p: "pending_retry ?a1 = None" by (simp add: blocked_facts pending_retry_def blocked_def fresh_def)
  have tr: "fst (saveWithRetry_run ?evs blocked) = [True, True, False]"
    by (simp add: saveWithRetry_run_def saveWithRetry_def failed_attempt_step last_attempt_step
        pending_retry_retry_from p a blocked_facts attempt_throws_iff split: prod.splits)
  from retry_backoff [OF blocked_facts(2) tr] tr
  show ?thesis by (simp add: blocked_facts)
qed

text \<open>
  Claim C5. Give-up threshold: with the maximum of 3 retries set by the constructor, when
  the first attempt and each of the three retries throw, the fourth failure shows the
  error notification (type \<open>error\<close>), no retry is pending or scheduled after the third
  (only the timer that hides the notification), however long the browser goes on, and the
  projects and entries in memory are what they were: nothing is rolled back.
\<close>

theorem retries_exhausted:
  assumes max: "maxRetries s = 3"
    and fresh: "pending_retry s = None"
    and trace: "False \<notin> set (fst (saveWithRetry_run (ev1 # ev2 # ev3 # evs) s))"
  shows "fst (saveWithRetry_run (ev1 # ev2 # ev3 # evs) s) = [True, True, True, True] \<and>
         messages (snd (saveWithRetry_run (ev1 # ev2 # ev3 # evs) s)) =
           messages s @ [(msg_save_error, js ''error'')] \<and>
         scheduled (snd (saveWithRetry_run (ev1 # ev2 # ev3 # evs) s)) =
           scheduled s @ [(1000, RetrySave), (2000, RetrySave), (3000, RetrySave),
                          (3000, HideMessage)] \<and>
         pending_retry (snd (saveWithRetry_run (ev1 # ev2 # ev3 # evs) s)) = None \<and>
         projects (snd (saveWithRetry_run (ev1 # ev2 # ev3 # evs) s)) = projects s \<and>
         entries (snd (saveWithRetry_run (ev1 # ev2 # ev3 # evs) s)) = entries s"
proof -
  let ?evs = "ev1 # ev2 # ev3 # evs"
  let ?a1 = "s\<lparr>retryCount := 0\<rparr>"
  let ?a2 = "retry_from ev1 ?a1"
  let ?a3 = "retry_from ev2 ?a2"
  let ?a4 = "retry_from ev3 ?a3"
  have run: "saveWithRetry_run ?evs s =
      (attempt_throws ?a1 # fst (run_retries ?evs (attemptSave ?a1)),
       snd (run_retries ?evs (attemptSave ?a1)))"
    by (simp add: saveWithRetry_run_def saveWithRetry_def split: prod.splits)
  have p1: "pending_retry ?a1 = None" using fresh by (simp add: pending_retry_def)
  have d1: "localStorage ?a1 = Denied"
    using trace by (simp add: run attempt_throws_iff)
  have r1: "retryCount ?a1 < maxRetries ?a1" using max by simp
  note step1 = failed_attempt_step [OF p1 d1 r1, of ev1 "ev2 # ev3 # evs"]
  have p2: "pending_retry ?a2 = None" using p1 by (rule pending_retry_retry_from)
  have d2: "localStorage ?a2 = Denied"
    using trace by (simp add: run step1 attempt_throws_iff)
  have r2: "retryCount ?a2 < maxRetries ?a2" using max by (simp add: retry_from_def)
  note step2 = failed_attempt_step [OF p2 d2 r2, of ev2 "ev3 # evs"]
  have p3: "pending_retry ?a3 = None" using p2 by (rule pending_retry_retry_from)
  have d3: "localStorage ?a3 = Denied"
    using trace by (simp add: run step1 step2 attempt_throws_iff)
  have r3: "retryCount ?a3 < maxRetries ?a3" using max by (simp add: retry_from_def)
  note step3 = failed_attempt_step [OF p3 d3 r3, of ev3 evs]
  have p4: "pending_retry ?a4 = None" using p3 by (rule pending_retry_retry_from)
  have d4: "localStorage ?a4 = Denied"
    using trace by (simp add: run step1 step2 step3 attempt_throws_iff)
  have r4: "\<not> retryCount ?a4 < maxRetries ?a4" using max by (simp add: retry_from_def)
  have step4: "run_retries evs (attemptSave ?a4) = ([], attemptSave ?a4)"
    using p4 r4 by (intro last_attempt_step) auto
  have outs: "fst (saveWithRetry_run ?evs s) = [True, True, True, True]"
    using d1 d2 d3 d4 by (simp add: run step1 step2 step3 step4 attempt_throws_iff)
  have fin: "snd (saveWithRetry_run ?evs s) = attemptSave ?a4"
    by (simp add: run step1 step2 step3 step4)
  note res = attemptSave_denied_give_up [OF d4 r4]
  have "pending_retry (attemptSave ?a4) = None"
    using p4 by (subst res) (simp add: pending_retry_def find_append_None)
  moreover have "messages (attemptSave ?a4) = messages s @ [(msg_save_error, js ''error'')]"
    by (subst res) (simp add: retry_from_def)
  moreover have "scheduled (attemptSave ?a4) =
           scheduled s @ [(1000, RetrySave), (2000, RetrySave), (3000, RetrySave),
                          (3000, HideMessage)]"
    by (subst res) (simp add: retry_from_def)
  moreover have "projects (attemptSave ?a4) = projects s \<and> entries (attemptSave ?a4) = entries s"
    by (subst res, subst res) (simp add: retry_from_def)
  ultimately show ?thesis using outs by (simp add: fin)
qed

theorem retries_exhausted_witness:
  "maxRetries blocked = 3 \<and> pending_retry blocked = None \<and>
   fst (saveWithRetry_run [\<lambda>st. st, \<lambda>st. st, \<lambda>st. st] blocked) = [True, True, True, True] \<and>
   messages (snd (saveWithRetry_run [\<lambda>st. st, \<lambda>st. st, \<lambda>st. st] blocked)) =
     [(msg_save_error, js ''error'')] \<and>
   scheduled (snd (saveWithRetry_run [\<lambda>st. st, \<lambda>st. st, \<lambda>st. st] blocked)) =
     [(1000, RetrySave), (2000, RetrySave), (3000, RetrySave), (3000, HideMessage)] \<and>
   entries (snd (saveWithRetry_run [\<lambda>st. st, \<lambda>st. st, \<lambda>st. st] blocked)) = JArr []"
proof -
  let ?evs = "[\<lambda>st. st, \<lambda>st. st, \<lambda>st::storage. st]"
  let ?a1 = "blocked\<lparr>retryCount := 0\<rparr>"
  have a: "localStorage (retry_from (\<lambda>st. st) x) = Denied"
          "maxRetries (retry_from (\<lambda>st. st) x) = maxRetries x"
          "retryCount (retry_from (\<lambda>st. st) x) = Suc (retryCount x)" for x
    by (simp_all add: retry_from_def)
  have p: "pending_retry ?a1 = None" by (simp add: blocked_facts pending_retry_def blocked_def fresh_def)
  have tr: "fst (saveWithRetry_run ?evs blocked) = [True, True, True, True]"
    by (simp add: saveWithRetry_run_def saveWithRetry_def failed_attempt_step last_attempt_step
        pending_retry_retry_from p a blocked_facts attempt_throws_iff split: prod.splits)
  then have "False \<notin> set (fst (saveWithRetry_run ?evs blocked))" by simp
  from retries_exhausted [OF blocked_facts(3) blocked_facts(2) this] tr
  show ?thesis by (simp add: blocked_facts)
qed

text \<open>
  Claim C6. Cleanup after a failed write: the \<open>catch\<close> of \<open>saveToLocalStorage\<close> runs
  \<open>cleanupStorage\<close> whenever one of its two writes throws (and not otherwise). Cleanup
  looks only at the keys that start with \<open>workTimesheet_\<close>; when there are more than 10
  of them it removes the first 5 of their sorted list and nothing else, and with 10 or
  fewer it removes nothing. Storage keys being distinct, those 5 are five different keys,
  each lexicographically smaller than every namespaced key that stays.
\<close>

theorem cleanup_evicts_five_smallest:
  "stored_items (final (cleanupStorage s)) =
     (if 10 < length (app_keys s)
      then filter (\<lambda>kv. fst kv \<notin> set (take 5 (sort (app_keys s)))) (stored_items s)
      else stored_items s) \<and>
   (distinct (map fst (stored_items s)) \<and> 10 < length (app_keys s) \<longrightarrow>
      length (take 5 (sort (app_keys s))) = 5 \<and> distinct (take 5 (sort (app_keys s))) \<and>
      set (take 5 (sort (app_keys s))) \<subseteq> set (app_keys s) \<and>
      (\<forall>d \<in> set (take 5 (sort (app_keys s))).
         \<forall>k \<in> set (app_keys s) - set (take 5 (sort (app_keys s))). d < k)) \<and>
   (ls_setItem key_data (JSON_stringify data) s = Inl (e, s1) \<longrightarrow>
      saveToLocalStorage data s = cleanupStorage (console_error (SaveError e) s1)) \<and>
   (ls_setItem key_data (JSON_stringify data) s = Inr s1 \<and>
    ls_setItem key_backup (JSON_stringify data) s1 = Inl (e, s2) \<longrightarrow>
      saveToLocalStorage data s = cleanupStorage (console_error (SaveError e) s2)) \<and>
   (ls_setItem key_data (JSON_stringify data) s = Inr s1 \<and>
    ls_setItem key_backup (JSON_stringify data) s1 = Inr s2 \<longrightarrow>
      saveToLocalStorage data s = Inr s2)"
proof -
  have "distinct (app_keys s)" if "distinct (map fst (stored_items s))"
    using that by (simp add: app_keys_def)
  then show ?thesis
    using cleanupStorage_items [of s] five_smallest [of "app_keys s"]
      saveToLocalStorage_unfold [of data s e s1 s2]
    by blast
qed

theorem cleanup_evicts_five_smallest_witness:
  "distinct (map fst (stored_items crowded)) \<and> 10 < length (app_keys crowded) \<and>
   ls_setItem key_data (JSON_stringify (snapshot crowded)) crowded =
     Inl (QuotaExceededError, crowded) \<and>
   take 5 (sort (app_keys crowded)) =
     [js ''workTimesheet_a'', js ''workTimesheet_b'', js ''workTimesheet_c'',
      js ''workTimesheet_d'', js ''workTimesheet_e''] \<and>
   stored_items (final (saveToLocalStorage (snapshot crowded) crowded)) =
     [(js ''workTimesheet_k'', js ''1''), (js ''theme'', js ''dark''),
      (js ''workTimesheet_j'', js ''3''), (js ''workTimesheet_i'', js ''5''),
      (js ''workTimesheet_h'', js ''7''), (js ''workTimesheet_g'', js ''9''),
      (js ''workTimesheet_f'', js ''11'')]"
proof -
  let ?s1 = "console_error (SaveError QuotaExceededError) crowded"
  have items1: "stored_items ?s1 = stored_items crowded" and keys1: "app_keys ?s1 = app_keys crowded"
    by (simp_all add: console_error_def stored_items_def app_keys_def)
  have d: "distinct (map fst (stored_items crowded))"
    by (simp add: crowded_def with_items_def stored_items_def js_def)
  have n: "10 < length (app_keys crowded)" by (simp add: crowded_keys)
  note w = crowded_write_fails [of "JSON_stringify (snapshot crowded)"]
  from cleanup_evicts_five_smallest [of crowded "snapshot crowded" QuotaExceededError crowded] w
  have "saveToLocalStorage (snapshot crowded) crowded = cleanupStorage ?s1" by blast
  moreover from cleanup_evicts_five_smallest [of ?s1] n
  have "stored_items (final (cleanupStorage ?s1)) =
      filter (\<lambda>kv. fst kv \<notin> set (take 5 (sort (app_keys crowded)))) (stored_items crowded)"
    by (simp add: items1 keys1)
  ultimately have "stored_items (final (saveToLocalStorage (snapshot crowded) crowded)) =
     [(js ''workTimesheet_k'', js ''1''), (js ''theme'', js ''dark''),
      (js ''workTimesheet_j'', js ''3''), (js ''workTimesheet_i'', js ''5''),
      (js ''workTimesheet_h'', js ''7''), (js ''workTimesheet_g'', js ''9''),
      (js ''workTimesheet_f'', js ''11'')]"
    by (simp add: crowded_sorted) (simp add: crowded_def with_items_def stored_items_def js_def)
  with d n w crowded_sorted show ?thesis by blast
qed

text \<open>
  Claim C10, as amended. While the page may use \<open>localStorage\<close>, \<open>saveToLocalStorage\<close>
  never throws: a \<open>setItem\<close> that fails (quota) is caught inside it and answered by
  \<open>cleanupStorage\<close>, so \<open>saveData\<close> returns normally even though nothing was written,
  \<open>attemptSave\<close> takes its success path (counter reset, only the deferred step
  scheduled, no notification) and the retry branch does not run. When the browser denies
  access to \<open>localStorage\<close>, \<open>cleanupStorage\<close> throws again from inside the
  \<open>catch\<close> block and the exception does reach \<open>attemptSave\<close>.
\<close>

theorem write_failure_is_swallowed:
  "(localStorage s \<noteq> Denied \<longrightarrow>
      \<not> isl (saveToLocalStorage data s) \<and> \<not> isl (saveData s) \<and>
      retryCount (attemptSave s) = 0 \<and>
      scheduled (attemptSave s) = scheduled s @ [(500, DeferredSave)] \<and>
      messages (attemptSave s) = messages s) \<and>
   (localStorage s = Denied \<longrightarrow> isl (saveToLocalStorage data s) \<and> isl (saveData s))"
proof (intro conjI impI)
  assume "localStorage s \<noteq> Denied"
  then obtain st where g: "localStorage s = Granted st"
    by (cases "localStorage s") auto
  from saveToLocalStorage_granted [OF g, of data]
  have 1: "\<not> isl (saveToLocalStorage data s)" by auto
  from saveData_granted [OF g] have 2: "\<not> isl (saveData s)" by auto
  from attemptSave_granted [OF g] obtain L E where
    "attemptSave s =
           s\<lparr>localStorage := L, console_errors := E,
             timers := filter (\<lambda>t. Some (fst t) \<noteq> saveTimeout s) (timers s)
                         @ [(next_timer s, 500, DeferredSave)],
             scheduled := scheduled s @ [(500, DeferredSave)],
             next_timer := Suc (next_timer s),
             saveTimeout := Some (next_timer s),
             retryCount := 0\<rparr>"
    by blast
  then have 3: "retryCount (attemptSave s) = 0 \<and>
     scheduled (attemptSave s) = scheduled s @ [(500, DeferredSave)] \<and>
     messages (attemptSave s) = messages s"
    by simp
  from 1 2 3 show "\<not> isl (saveToLocalStorage data s)" "\<not> isl (saveData s)"
    "retryCount (attemptSave s) = 0"
    "scheduled (attemptSave s) = scheduled s @ [(500, DeferredSave)]"
    "messages (attemptSave s) = messages s"
    by simp_all
next
  assume d: "localStorage s = Denied"
  show "isl (saveToLocalStorage data s)" by (simp add: saveToLocalStorage_denied [OF d])
  show "isl (saveData s)" by (simp add: saveData_denied [OF d])
qed

text \<open>
  At a storage filled to its quota the write fails, and still nothing is thrown and no
  retry is scheduled.
\<close>

theorem write_failure_is_swallowed_witness:
  "localStorage crowded \<noteq> Denied \<and>
   ls_setItem key_data (JSON_stringify (snapshot crowded)) crowded =
     Inl (QuotaExceededError, crowded) \<and>
   \<not> isl (saveToLocalStorage (snapshot crowded) crowded) \<and> \<not> isl (saveData crowded) \<and>
   retryCount (attemptSave crowded) = 0 \<and>
   scheduled (attemptSave crowded) = [(500, DeferredSave)] \<and>
   messages (attemptSave crowded) = []"
proof -
  have g: "localStorage crowded \<noteq> Denied" by (simp add: crowded_def with_items_def)
  have "scheduled crowded = []" "messages crowded = []"
    by (simp_all add: crowded_def with_items_def fresh_def)
  with write_failure_is_swallowed [of crowded "snapshot crowded"] g crowded_write_fails
  show ?thesis by simp
qed

text \<open>
  The claim as stated fails where storage is denied: \<open>saveToLocalStorage\<close> throws, and
  \<open>attemptSave\<close> schedules a retry.
\<close>

theorem saveToLocalStorage_throws_when_denied:
  "isl (saveToLocalStorage (snapshot blocked) blocked) \<and>
   scheduled (attemptSave blocked) = [(1000, RetrySave)]"
  by (simp add: saveToLocalStorage_denied attemptSave_denied_retry blocked_facts)










text \<open>
  Claim C7, as amended. Selective cache population: for a same-origin GET request that is
  not in the cache, a network response with status 200 is handed to the caller as it is,
  and it is stored in the static bucket (under the request's URL) exactly when the string
  \<open>request.url\<close> ends in \<open>.html\<close>, \<open>.css\<close>, \<open>.js\<close> or \<open>.json\<close>; otherwise the
  bucket has no entry for it. For a URL without query string and fragment this is the
  same as its path ending in one of the four: a path ending in \<open>.png\<close> is not stored, a
  path ending in \<open>.js\<close> is.
\<close>

theorem selective_cache_population:
  assumes get: "req_method req = js ''GET''"
    and same: "origin (req_url req) = self_origin w"
    and miss: "caches_match w (cache_key (req_url req)) = None"
    and ok: "status fr = 200"
  shows "fst (on_fetch w req (NetworkResponse fr)) = Fulfilled (Some fr) \<and>
         (static_entry (snd (on_fetch w req (NetworkResponse fr))) (cache_key (req_url req)) = Some fr
            \<longleftrightarrow> matches_static (href (req_url req))) \<and>
         (\<not> matches_static (href (req_url req)) \<longrightarrow>
            static_entry (snd (on_fetch w req (NetworkResponse fr))) (cache_key (req_url req)) = None) \<and>
         (search (req_url req) = [] \<and> hash (req_url req) = [] \<and>
          take 1 (pathname (req_url req)) = js ''/'' \<longrightarrow>
            (matches_static (href (req_url req)) \<longleftrightarrow> matches_static (pathname (req_url req))) \<and>
            (endsWith (pathname (req_url req)) (js ''.png'') \<longrightarrow>
               static_entry (snd (on_fetch w req (NetworkResponse fr))) (cache_key (req_url req)) = None) \<and>
            (endsWith (pathname (req_url req)) (js ''.js'') \<longrightarrow>
               static_entry (snd (on_fetch w req (NetworkResponse fr))) (cache_key (req_url req)) = Some fr))"
proof -
  let ?u = "req_url req"
  let ?w' = "snd (on_fetch w req (NetworkResponse fr))"
  have res: "fst (on_fetch w req (NetworkResponse fr)) = Fulfilled (Some fr)"
    using get same miss by (simp add: on_fetch_def)
  have put: "static_entry ?w' (cache_key ?u) = Some fr" if "matches_static (href ?u)"
    using get same miss ok that by (simp add: on_fetch_def static_entry_put)
  have none: "static_entry ?w' (cache_key ?u) = None" if "\<not> matches_static (href ?u)"
    using get same miss ok that
    by (simp add: on_fetch_def static_entry_caches_open static_entry_miss)
  have plain: "matches_static (href ?u) \<longleftrightarrow> matches_static (pathname ?u)"
    if "search ?u = [] \<and> hash ?u = [] \<and> take 1 (pathname ?u) = js ''/''"
    using that by (simp add: href_def matches_static_path)
  have iff: "static_entry ?w' (cache_key ?u) = Some fr \<longleftrightarrow> matches_static (href ?u)"
    using put none by (cases "matches_static (href ?u)") simp_all
  have part: "(matches_static (href ?u) \<longleftrightarrow> matches_static (pathname ?u)) \<and>
      (endsWith (pathname ?u) (js ''.png'') \<longrightarrow> static_entry ?w' (cache_key ?u) = None) \<and>
      (endsWith (pathname ?u) (js ''.js'') \<longrightarrow> static_entry ?w' (cache_key ?u) = Some fr)"
    if p: "search ?u = [] \<and> hash ?u = [] \<and> take 1 (pathname ?u) = js ''/''"
  proof (intro conjI impI)
    show "matches_static (href ?u) \<longleftrightarrow> matches_static (pathname ?u)" by (rule plain [OF p])
  next
    assume "endsWith (pathname ?u) (js ''.png'')"
    then have "\<not> matches_static (pathname ?u)" by (rule png_not_static)
    then have "\<not> matches_static (href ?u)" using plain [OF p] by simp
    then show "static_entry ?w' (cache_key ?u) = None" by (rule none)
  next
    assume "endsWith (pathname ?u) (js ''.js'')"
    then have "matches_static (pathname ?u)" by (rule js_matches_static)
    then have "matches_static (href ?u)" using plain [OF p] by simp
    then show "static_entry ?w' (cache_key ?u) = Some fr" by (rule put)
  qed
  from res iff none part show ?thesis by blast
qed

theorem selective_cache_population_witness:
  "req_method (get_request ''/app/app.js'' [] ''script'') = js ''GET'' \<and>
   origin (req_url (get_request ''/app/app.js'' [] ''script'')) = self_origin installed \<and>
   caches_match installed (cache_key (req_url (get_request ''/app/app.js'' [] ''script''))) = None \<and>
   status (page ''console.log(1)'') = 200 \<and>
   fst (on_fetch installed (get_request ''/app/app.js'' [] ''script'')
          (NetworkResponse (page ''console.log(1)''))) = Fulfilled (Some (page ''console.log(1)'')) \<and>
   static_entry (snd (on_fetch installed (get_request ''/app/app.js'' [] ''script'')
                        (NetworkResponse (page ''console.log(1)''))))
     (js ''https://example.org/app/app.js'') = Some (page ''console.log(1)'') \<and>
   fst (on_fetch installed (get_request ''/app/logo.png'' [] ''image'')
          (NetworkResponse (page ''PNG''))) = Fulfilled (Some (page ''PNG'')) \<and>
   static_entry (snd (on_fetch installed (get_request ''/app/logo.png'' [] ''image'')
                        (NetworkResponse (page ''PNG''))))
     (js ''https://example.org/app/logo.png'') = None"
proof -
  let ?r = "get_request ''/app/app.js'' [] ''script''" and ?fr = "page ''console.log(1)''"
  let ?r2 = "get_request ''/app/logo.png'' [] ''image''" and ?fr2 = "page ''PNG''"
  have k: "cache_key (req_url ?r) = js ''https://example.org/app/app.js''"
    "cache_key (req_url ?r2) = js ''https://example.org/app/logo.png''"
    by (simp_all add: get_request_facts js_append)
  have h: "req_method ?r = js ''GET''" "origin (req_url ?r) = self_origin installed"
    "caches_match installed (cache_key (req_url ?r)) = None" "status ?fr = 200"
    "req_method ?r2 = js ''GET''" "origin (req_url ?r2) = self_origin installed"
    "caches_match installed (cache_key (req_url ?r2)) = None" "status ?fr2 = 200"
    by (simp_all add: k installed_lookup) (simp_all add: get_request_facts installed_facts page_def)
  have plain: "search (req_url ?r) = [] \<and> hash (req_url ?r) = [] \<and>
      take 1 (pathname (req_url ?r)) = js ''/''"
    "search (req_url ?r2) = [] \<and> hash (req_url ?r2) = [] \<and>
      take 1 (pathname (req_url ?r2)) = js ''/''"
    by (simp_all add: get_request_facts js_def)
  have e: "endsWith (pathname (req_url ?r)) (js ''.js'')"
    "endsWith (pathname (req_url ?r2)) (js ''.png'')"
    by (simp_all add: get_request_facts endsWith_js)
  from selective_cache_population [OF h(1-4)] plain(1) e(1)
  have a: "fst (on_fetch installed ?r (NetworkResponse ?fr)) = Fulfilled (Some ?fr)"
    "static_entry (snd (on_fetch installed ?r (NetworkResponse ?fr))) (cache_key (req_url ?r)) =
       Some ?fr"
    by blast+
  from selective_cache_population [OF h(5-8)] plain(2) e(2)
  have b: "fst (on_fetch installed ?r2 (NetworkResponse ?fr2)) = Fulfilled (Some ?fr2)"
    "static_entry (snd (on_fetch installed ?r2 (NetworkResponse ?fr2))) (cache_key (req_url ?r2)) =
       None"
    by blast+
  from h(1-4) a b show ?thesis unfolding k by blast
qed

text \<open>
  The claim as stated fails for a URL with a query string: the path of
  \<open>/app/app.js?v=2\<close> ends in \<open>.js\<close>, the URL does not, and the response is not stored.
\<close>

theorem query_string_blocks_caching:
  "req_method (get_request ''/app/app.js'' ''?v=2'' ''script'') = js ''GET'' \<and>
   origin (req_url (get_request ''/app/app.js'' ''?v=2'' ''script'')) = self_origin installed \<and>
   caches_match installed (cache_key (req_url (get_request ''/app/app.js'' ''?v=2'' ''script'')))
     = None \<and>
   status (page ''console.log(1)'') = 200 \<and>
   endsWith (pathname (req_url (get_request ''/app/app.js'' ''?v=2'' ''script''))) (js ''.js'') \<and>
   static_entry (snd (on_fetch installed (get_request ''/app/app.js'' ''?v=2'' ''script'')
                        (NetworkResponse (page ''console.log(1)''))))
     (cache_key (req_url (get_request ''/app/app.js'' ''?v=2'' ''script''))) = None"
proof -
  let ?r = "get_request ''/app/app.js'' ''?v=2'' ''script''" and ?fr = "page ''console.log(1)''"
  have k: "cache_key (req_url ?r) = js ''https://example.org/app/app.js?v=2''"
    and hr: "href (req_url ?r) = js ''https://example.org/app/app.js?v=2''"
    by (simp_all add: get_request_facts js_append)
  have h: "req_method ?r = js ''GET''" "origin (req_url ?r) = self_origin installed"
    "caches_match installed (cache_key (req_url ?r)) = None" "status ?fr = 200"
    by (simp_all add: k installed_lookup) (simp_all add: get_request_facts installed_facts page_def)
  have e: "endsWith (pathname (req_url ?r)) (js ''.js'')"
    by (simp add: get_request_facts endsWith_js)
  have "static_entry (snd (on_fetch installed ?r (NetworkResponse ?fr))) (cache_key (req_url ?r)) =
      None"
    using h by (simp add: on_fetch_def hr query_not_static static_entry_caches_open static_entry_miss)
  with h e show ?thesis by blast
qed

text \<open>
  Claim C8. Navigation fallback: for a same-origin GET request that is not in the cache and
  whose network fetch fails, the promise given to \<open>respondWith\<close> is never rejected and
  the cache is left alone. For a document navigation it is fulfilled with what
  \<open>caches.match\<close> finds for the fallback document, which the handler names
  \<open>./index.html\<close>: with that document cached, the request resolves to its content. For
  every other destination it is fulfilled with \<open>undefined\<close>.
\<close>

theorem navigation_fallback:
  assumes get: "req_method req = js ''GET''"
    and same: "origin (req_url req) = self_origin w"
    and miss: "caches_match w (cache_key (req_url req)) = None"
  shows "(destination req = js ''document'' \<longrightarrow>
            fst (on_fetch w req NetworkError) =
              Fulfilled (caches_match w (resolve w (js ''./index.html'')))) \<and>
         (destination req = js ''document'' \<and>
          caches_match w (resolve w (js ''./index.html'')) = Some fallback \<longrightarrow>
            fst (on_fetch w req NetworkError) = Fulfilled (Some fallback)) \<and>
         (destination req \<noteq> js ''document'' \<longrightarrow>
            fst (on_fetch w req NetworkError) = Fulfilled None) \<and>
         fst (on_fetch w req NetworkError) \<noteq> Rejected \<and>
         snd (on_fetch w req NetworkError) = w"
  using assms by (simp add: on_fetch_def)

theorem navigation_fallback_witness:
  "req_method (get_request ''/app/report'' [] ''document'') = js ''GET'' \<and>
   origin (req_url (get_request ''/app/report'' [] ''document'')) = self_origin installed \<and>
   caches_match installed (cache_key (req_url (get_request ''/app/report'' [] ''document''))) = None \<and>
   caches_match installed (resolve installed (js ''./index.html'')) =
     Some (page ''<html>timesheet</html>'') \<and>
   fst (on_fetch installed (get_request ''/app/report'' [] ''document'') NetworkError) =
     Fulfilled (Some (page ''<html>timesheet</html>'')) \<and>
   destination (get_request ''/app/logo.png'' [] ''image'') \<noteq> js ''document'' \<and>
   fst (on_fetch installed (get_request ''/app/logo.png'' [] ''image'') NetworkError) =
     Fulfilled None"
proof -
  let ?r = "get_request ''/app/report'' [] ''document''"
  let ?r2 = "get_request ''/app/logo.png'' [] ''image''"
  have k: "cache_key (req_url ?r) = js ''https://example.org/app/report''"
    "cache_key (req_url ?r2) = js ''https://example.org/app/logo.png''"
    by (simp_all add: get_request_facts js_append)
  have h: "req_method ?r = js ''GET''" "origin (req_url ?r) = self_origin installed"
    "caches_match installed (cache_key (req_url ?r)) = None"
    "req_method ?r2 = js ''GET''" "origin (req_url ?r2) = self_origin installed"
    "caches_match installed (cache_key (req_url ?r2)) = None"
    by (simp_all add: k installed_lookup) (simp_all add: get_request_facts installed_facts)
  have d: "destination ?r = js ''document''" "destination ?r2 \<noteq> js ''document''"
    by (simp_all add: get_request_facts js_def)
  have f: "caches_match installed (resolve installed (js ''./index.html'')) =
     Some (page ''<html>timesheet</html>'')"
    by (simp add: installed_facts installed_lookup)
  from navigation_fallback [OF h(1-3), of "page ''<html>timesheet</html>''"] d(1) f
  have a: "fst (on_fetch installed ?r NetworkError) = Fulfilled (Some (page ''<html>timesheet</html>''))"
    by blast
  from navigation_fallback [OF h(4-6)] d(2)
  have b: "fst (on_fetch installed ?r2 NetworkError) = Fulfilled None"
    by blast
  from h(1-3) f a d(2) b show ?thesis by blast
qed


end
